theory Spec2Isabelle
  imports Main "HOL-Library.Monad_Syntax" "HOL-Library.Sublist"
begin

section \<open>The remote file tree of AgaveClientInterface (remoteFiles/filetreenode.cpp)\<close>

text \<open>
  A \<open>FileTreeNode\<close> is a heap object: it points to its parent, its parent lists it
  in \<open>childList\<close>, and the methods of one node write to its parent and its children.
  The embedding therefore keeps an explicit store. A \<open>FileTreeNode *\<close> is an index
  into the list of allocated nodes, \<open>nullptr\<close> is \<open>None\<close>, and \<open>new\<close> appends
  to the list. Every method takes the store and the \<open>this\<close> pointer and returns the
  new store. A method returns \<open>None\<close> where the C++ has no defined result: a
  pointer that addresses no node, \<open>QList::first()\<close> on an empty list, a member
  call through the null pointer that \<open>itemFromIndex\<close> returns for an invalid
  index, or a loop that does not end.
\<close>

subsection \<open>Enumerations\<close>

text \<open>
  The enumerations are declared in headers that are not part of the sources read here.
  \<open>FileType\<close> and \<open>RequestState\<close> list the enumerators that filetreenode.cpp
  names and one more constructor for all the others; \<open>NodeState\<close> lists the cases
  of the switch in \<open>recomputeModelItems\<close>.
\<close>

datatype FileType = DIR | FILE | INVALID | OTHER_FILE_TYPE

datatype RequestState = GOOD | FILE_NOT_FOUND | OTHER_REQUEST_STATE

datatype NodeState =
    DELETING | ERROR | NON_EXTANT
  | FILE_BUFF_LOADED | FILE_BUFF_LOADING | FILE_BUFF_RELOADING | FILE_KNOWN
  | FOLDER_CONTENTS_LOADING | FOLDER_CONTENTS_RELOADING | FOLDER_KNOWN_CONTENTS_NOT
  | FOLDER_CONTENTS_LOADED
  | FILE_SPECULATE_IDLE | FILE_SPECULATE_LOADING
  | FOLDER_SPECULATE_IDLE | FOLDER_SPECULATE_LOADING
  | INIT

subsection \<open>Data\<close>

type_synonym nodeptr = nat
type_synonym item = nat
type_synonym taskptr = nat

text \<open>
  \<open>FileMetaData\<close> (and \<open>FileNodeRef\<close>, which filetreenode.cpp reads through the
  same getters) is a value class whose source is absent. It is modelled by what its
  getters return: \<open>getFileName\<close>, \<open>getContainingPath\<close>, \<open>getFullPath\<close>,
  \<open>getFileType\<close> and \<open>getSize\<close>. The time stamp and the back pointer to the file
  operator, which no method below reads, are left out.
\<close>

record FileMetaData =
  fileName :: string
  containingPath :: string
  fullPath :: string
  fileType :: FileType
  fileSize :: int

text \<open>
  The members of \<open>FileTreeNode\<close>. A \<open>QPersistentModelIndex\<close> is modelled by the
  identity of the \<open>QStandardItem\<close> it follows: it is valid as long as that item is in
  the item model. The default-constructed index is \<open>None\<close>. \<open>fileDataBuffer\<close> is
  the byte array the node owns, \<open>None\<close> for \<open>nullptr\<close>.
\<close>

record FileTreeNode =
  myParent :: "nodeptr option"
  fileData :: FileMetaData
  childList :: "nodeptr list"
  folderContentsKnown :: bool
  nodeVisible :: bool
  myState :: NodeState
  fileDataBuffer :: "string option"
  lsTask :: "taskptr option"
  bufferTask :: "taskptr option"
  modelItemList :: "item list"
  decendantPlaceholderItem :: "item option"

text \<open>
  The item model of the file operator (\<open>QStandardItemModel\<close>, a class of the GUI
  toolkit) is a forest of rows. A row holds one item per column, and rows appended to
  one of its items hang below it.
\<close>

datatype qrow = QRow (cells: "item list") (subrows: "qrow list")

datatype slot = SLOT_deliverLSdata | SLOT_deliverBuffData

text \<open>
  The store: the allocated nodes, and the one \<open>FileOperator\<close> that every node of a
  tree shares (a child copies its parent's pointer). Of the operator the methods use
  the item model \<open>myModel\<close> with its column count, and \<open>fileNodesChange\<close>, which
  is recorded as the list of the notifications sent. \<open>nextItem\<close> numbers the items
  created by \<open>new\<close>. \<open>deleteLater\<close> lists the nodes handed to the event loop for
  deletion, and \<open>connections\<close> the signal connections from reply objects to nodes.
\<close>

record store =
  nodes :: "FileTreeNode list"
  myModel :: "qrow list"
  columnCount :: nat
  nextItem :: item
  deleteLater :: "nodeptr list"
  fileNodesChange :: "FileMetaData list"
  connections :: "(taskptr \<times> nodeptr \<times> slot) list"

definition getNode :: "store \<Rightarrow> nodeptr \<Rightarrow> FileTreeNode option" where
  "getNode s n = (if n < length (nodes s) then Some (nodes s ! n) else None)"

definition putNode :: "store \<Rightarrow> nodeptr \<Rightarrow> FileTreeNode \<Rightarrow> store" where
  "putNode s n nd = s\<lparr>nodes := (nodes s)[n := nd]\<rparr>"

subsection \<open>The item model\<close>

fun rowHas :: "item \<Rightarrow> qrow \<Rightarrow> bool" where
  "rowHas i (QRow cs subs) = (i \<in> set cs \<or> (\<exists>r \<in> set subs. rowHas i r))"

text \<open>\<open>QPersistentModelIndex::isValid\<close>: the item is still in the model.\<close>

definition isValid :: "qrow list \<Rightarrow> item \<Rightarrow> bool" where
  "isValid m i = (\<exists>r \<in> set m. rowHas i r)"

text \<open>
  \<open>removeRow(idx.row(), idx.parent())\<close> removes the row of \<open>idx\<close> with everything
  below it, and nothing when \<open>idx\<close> is invalid (its row number is then \<open>-1\<close>).
\<close>

fun dropRow :: "item \<Rightarrow> qrow \<Rightarrow> qrow" where
  "dropRow i (QRow cs subs) =
     QRow cs (filter (\<lambda>r. i \<notin> set (cells r)) (map (dropRow i) subs))"

definition removeRowOf :: "item \<Rightarrow> qrow list \<Rightarrow> qrow list" where
  "removeRowOf i m = filter (\<lambda>r. i \<notin> set (cells r)) (map (dropRow i) m)"

text \<open>\<open>itemFromIndex(p)->appendRow(row)\<close>: the row is appended below item \<open>p\<close>.\<close>

fun addRow :: "item \<Rightarrow> qrow \<Rightarrow> qrow \<Rightarrow> qrow" where
  "addRow p new (QRow cs subs) =
     QRow cs (map (addRow p new) subs @ (if p \<in> set cs then [new] else []))"

definition appendRowUnder :: "item \<Rightarrow> qrow \<Rightarrow> qrow list \<Rightarrow> qrow list" where
  "appendRowUnder p new m = map (addRow p new) m"

text \<open>\<open>QList::first()\<close>, which has no defined result on an empty list.\<close>

definition firstOf :: "'a list \<Rightarrow> 'a option" where
  "firstOf xs = (case xs of [] \<Rightarrow> None | x # _ \<Rightarrow> Some x)"

subsection \<open>Model items of a node\<close>

text \<open>
  \<open>purgeModelItems\<close>. The placeholder row is only ever appended below the node's
  first item (in \<open>updateModelItems\<close>), so the row that
  \<open>removeRow(decendantPlaceholderItem.row(), modelItemList.first())\<close> addresses is the
  placeholder's own.
\<close>

definition purgeModelItems :: "store \<Rightarrow> nodeptr \<Rightarrow> store option" where
  "purgeModelItems s n = do {
     nd \<leftarrow> getNode s n;
     if modelItemList nd = [] then Some s
     else do {
       first \<leftarrow> firstOf (modelItemList nd);
       let m1 = (case decendantPlaceholderItem nd of
                   None \<Rightarrow> myModel s
                 | Some ph \<Rightarrow> if isValid (myModel s) ph then removeRowOf ph (myModel s)
                             else myModel s);
       let m2 = removeRowOf first m1;
       Some (putNode (s\<lparr>myModel := m2\<rparr>) n
               (nd\<lparr>modelItemList := [], decendantPlaceholderItem := None\<rparr>))
     }
   }"

text \<open>The loop \<open>for (aChild : childList) if (aChild->nodeVisible) return;\<close>.\<close>

fun anyChildVisible :: "store \<Rightarrow> nodeptr list \<Rightarrow> bool option" where
  "anyChildVisible s [] = Some False"
| "anyChildVisible s (c # cs) = do {
     cn \<leftarrow> getNode s c;
     if nodeVisible cn then Some True else anyChildVisible s cs
   }"

text \<open>
  The second half of \<open>updateModelItems\<close>, from the removal of an old placeholder to
  the new "Empty" or "Loading" row. Both texts are display only, so the flag
  \<open>folderContentsLoaded\<close> does not change the result.
\<close>

definition updatePlaceholder :: "store \<Rightarrow> nodeptr \<Rightarrow> bool \<Rightarrow> store option" where
  "updatePlaceholder s n folderContentsLoaded = do {
     nd \<leftarrow> getNode s n;
     s1 \<leftarrow> (case decendantPlaceholderItem nd of
             None \<Rightarrow> Some s
           | Some ph \<Rightarrow>
               if isValid (myModel s) ph then do {
                 first \<leftarrow> firstOf (modelItemList nd);
                 if isValid (myModel s) first
                 then Some (putNode (s\<lparr>myModel := removeRowOf ph (myModel s)\<rparr>) n
                              (nd\<lparr>decendantPlaceholderItem := None\<rparr>))
                 else None
               } else Some s);
     nd1 \<leftarrow> getNode s1 n;
     if fileType (fileData nd1) \<noteq> DIR then Some s1
     else do {
       vis \<leftarrow> anyChildVisible s1 (childList nd1);
       if vis then Some s1
       else do {
         first \<leftarrow> firstOf (modelItemList nd1);
         if isValid (myModel s1) first
         then Some (putNode
                (s1\<lparr>myModel := appendRowUnder first (QRow [nextItem s1] []) (myModel s1),
                    nextItem := Suc (nextItem s1)\<rparr>) n
                (nd1\<lparr>decendantPlaceholderItem := Some (nextItem s1)\<rparr>))
         else None
       }
     }
   }"

text \<open>
  \<open>updateModelItems\<close>. With no items yet, a row of \<open>columnCount\<close> new items is
  appended to the model (root node) or below the parent's first item; when that item
  is invalid the new items are deleted again and the method returns. With items, the
  text of each is updated, which dereferences \<open>itemFromIndex\<close> of each index.
\<close>

definition updateModelItems :: "store \<Rightarrow> nodeptr \<Rightarrow> bool \<Rightarrow> store option" where
  "updateModelItems s n folderContentsLoaded = do {
     nd \<leftarrow> getNode s n;
     if modelItemList nd = [] then
       let tempRowList = [nextItem s ..< nextItem s + columnCount s];
           s0 = s\<lparr>nextItem := nextItem s + columnCount s\<rparr>
       in (case myParent nd of
             None \<Rightarrow>
               updatePlaceholder
                 (putNode (s0\<lparr>myModel := myModel s0 @ [QRow tempRowList []]\<rparr>) n
                    (nd\<lparr>modelItemList := tempRowList\<rparr>))
                 n folderContentsLoaded
           | Some p \<Rightarrow> do {
               pn \<leftarrow> getNode s p;
               parentIndex \<leftarrow> firstOf (modelItemList pn);
               if \<not> isValid (myModel s) parentIndex
               then Some (putNode s n
                            (nd\<lparr>decendantPlaceholderItem := None, modelItemList := []\<rparr>))
               else updatePlaceholder
                      (putNode
                         (s0\<lparr>myModel := appendRowUnder parentIndex (QRow tempRowList [])
                                           (myModel s0)\<rparr>) n
                         (nd\<lparr>modelItemList := tempRowList\<rparr>))
                      n folderContentsLoaded
             })
     else if \<forall>anIndex \<in> set (modelItemList nd). isValid (myModel s) anIndex
          then updatePlaceholder s n folderContentsLoaded
          else None
   }"

definition recomputeModelItems :: "store \<Rightarrow> nodeptr \<Rightarrow> store option" where
  "recomputeModelItems s n = do {
     nd \<leftarrow> getNode s n;
     case myState nd of
       DELETING \<Rightarrow> purgeModelItems s n
     | ERROR \<Rightarrow> purgeModelItems s n
     | NON_EXTANT \<Rightarrow> purgeModelItems s n
     | FILE_BUFF_LOADED \<Rightarrow> updateModelItems s n False
     | FILE_BUFF_LOADING \<Rightarrow> updateModelItems s n False
     | FILE_BUFF_RELOADING \<Rightarrow> updateModelItems s n False
     | FILE_KNOWN \<Rightarrow> updateModelItems s n False
     | FOLDER_CONTENTS_LOADING \<Rightarrow> updateModelItems s n False
     | FOLDER_CONTENTS_RELOADING \<Rightarrow> updateModelItems s n False
     | FOLDER_KNOWN_CONTENTS_NOT \<Rightarrow> updateModelItems s n False
     | FOLDER_CONTENTS_LOADED \<Rightarrow> updateModelItems s n True
     | FILE_SPECULATE_IDLE \<Rightarrow> Some s
     | FILE_SPECULATE_LOADING \<Rightarrow> Some s
     | FOLDER_SPECULATE_IDLE \<Rightarrow> Some s
     | FOLDER_SPECULATE_LOADING \<Rightarrow> Some s
     | INIT \<Rightarrow> Some s
   }"

subsection \<open>The state of a node\<close>

text \<open>
  \<open>changeNodeState\<close>. \<open>deleteLater()\<close> queues the node for the event loop; the
  node stays allocated. The file operator is notified with the node's file data.
\<close>

definition changeNodeState :: "store \<Rightarrow> nodeptr \<Rightarrow> NodeState \<Rightarrow> store option" where
  "changeNodeState s n newState = do {
     nd \<leftarrow> getNode s n;
     if myState nd = DELETING then Some s
     else if newState = myState nd then Some s
     else do {
       let s1 = putNode s n (nd\<lparr>myState := newState\<rparr>);
       let s2 = (if newState = DELETING then s1\<lparr>deleteLater := deleteLater s1 @ [n]\<rparr>
                 else s1);
       s3 \<leftarrow> recomputeModelItems s2 n;
       s4 \<leftarrow> (case myParent nd of
               None \<Rightarrow> Some s3
             | Some p \<Rightarrow> recomputeModelItems s3 p);
       Some (s4\<lparr>fileNodesChange := fileNodesChange s4 @ [fileData nd]\<rparr>)
     }
   }"

definition haveLStask :: "FileTreeNode \<Rightarrow> bool" where
  "haveLStask nd = (lsTask nd \<noteq> None)"

definition haveBuffTask :: "FileTreeNode \<Rightarrow> bool" where
  "haveBuffTask nd = (bufferTask nd \<noteq> None)"

definition recomputeNodeState :: "store \<Rightarrow> nodeptr \<Rightarrow> store option" where
  "recomputeNodeState s n = do {
     nd \<leftarrow> getNode s n;
     if myState nd = DELETING then Some s
     else if fileType (fileData nd) = DIR then
       (if \<not> nodeVisible nd then
          (if haveLStask nd then changeNodeState s n FOLDER_SPECULATE_LOADING
           else changeNodeState s n FOLDER_SPECULATE_IDLE)
        else if haveLStask nd then
          (if childList nd \<noteq> [] then changeNodeState s n FOLDER_CONTENTS_RELOADING
           else changeNodeState s n FOLDER_CONTENTS_LOADING)
        else
          (if \<not> folderContentsKnown nd then changeNodeState s n FOLDER_KNOWN_CONTENTS_NOT
           else changeNodeState s n FOLDER_CONTENTS_LOADED))
     else if fileType (fileData nd) = FILE then
       (if \<not> nodeVisible nd then
          (if haveBuffTask nd then changeNodeState s n FILE_SPECULATE_LOADING
           else changeNodeState s n FILE_SPECULATE_IDLE)
        else if haveBuffTask nd then
          (if fileDataBuffer nd \<noteq> None then changeNodeState s n FILE_BUFF_RELOADING
           else changeNodeState s n FILE_BUFF_LOADING)
        else
          (if fileDataBuffer nd = None then changeNodeState s n FILE_KNOWN
           else changeNodeState s n FILE_BUFF_LOADED))
     else changeNodeState s n ERROR
   }"

text \<open>
  \<open>setNodeVisible\<close> climbs to the parent before it recomputes its own state. A node
  is marked before the climb, so each call marks one more node and the recursion ends
  on every store.
\<close>

definition invisibleCount :: "store \<Rightarrow> nat" where
  "invisibleCount s = length (filter (\<lambda>nd. \<not> nodeVisible nd) (nodes s))"

lemma invisible_update_less:
  "n < length xs \<Longrightarrow> \<not> nodeVisible (xs ! n) \<Longrightarrow> nodeVisible nd \<Longrightarrow>
   length (filter (\<lambda>nd. \<not> nodeVisible nd) (xs[n := nd]))
     < length (filter (\<lambda>nd. \<not> nodeVisible nd) xs)"
proof (induction xs arbitrary: n)
  case Nil
  then show ?case by simp
next
  case (Cons x xs)
  then show ?case by (cases n) auto
qed

function setNodeVisible :: "store \<Rightarrow> nodeptr \<Rightarrow> store option" where
  "setNodeVisible s n =
     (case getNode s n of
        None \<Rightarrow> None
      | Some nd \<Rightarrow>
          if nodeVisible nd then Some s
          else (case myParent nd of
                  None \<Rightarrow> recomputeNodeState (putNode s n (nd\<lparr>nodeVisible := True\<rparr>)) n
                | Some p \<Rightarrow>
                    (case setNodeVisible (putNode s n (nd\<lparr>nodeVisible := True\<rparr>)) p of
                       None \<Rightarrow> None
                     | Some s2 \<Rightarrow> recomputeNodeState s2 n)))"
  by pat_completeness auto
termination
proof (relation "measure (\<lambda>(s, n). invisibleCount s)")
  show "wf (measure (\<lambda>(s, n). invisibleCount s))" by simp
next
  fix s :: store and n :: nodeptr and nd :: FileTreeNode and p :: nodeptr
  assume "getNode s n = Some nd" and "\<not> nodeVisible nd" and "myParent nd = Some p"
  then show "((putNode s n (nd\<lparr>nodeVisible := True\<rparr>), p), (s, n))
               \<in> measure (\<lambda>(s, n). invisibleCount s)"
    by (auto simp: getNode_def putNode_def invisibleCount_def
             intro: invisible_update_less split: if_splits)
qed

subsection \<open>What the methods leave alone\<close>

text \<open>
  The methods on model items write the item model and the two item members of nodes;
  the methods on the node state write \<open>myState\<close> besides. Two nodes agree up to
  those members when their frames are equal.
\<close>


definition modelFrame :: "FileTreeNode \<Rightarrow> FileTreeNode" where
  "modelFrame nd = nd\<lparr>modelItemList := [], decendantPlaceholderItem := None\<rparr>"

definition stateFrame :: "FileTreeNode \<Rightarrow> FileTreeNode" where
  "stateFrame nd = nd\<lparr>myState := INIT, modelItemList := [], decendantPlaceholderItem := None\<rparr>"

definition modelOnly :: "store \<Rightarrow> store \<Rightarrow> bool" where
  "modelOnly s s' = (map modelFrame (nodes s') = map modelFrame (nodes s) \<and>
     deleteLater s' = deleteLater s \<and> fileNodesChange s' = fileNodesChange s \<and>
     connections s' = connections s \<and> columnCount s' = columnCount s)"

definition stateOnly :: "store \<Rightarrow> store \<Rightarrow> bool" where
  "stateOnly s s' = (map stateFrame (nodes s') = map stateFrame (nodes s) \<and>
     connections s' = connections s \<and> columnCount s' = columnCount s)"

lemma modelOnly_refl: "modelOnly s s"
  by (simp add: modelOnly_def)

lemma modelOnly_trans: "modelOnly s s1 \<Longrightarrow> modelOnly s1 s2 \<Longrightarrow> modelOnly s s2"
  by (simp add: modelOnly_def)

lemma stateOnly_refl: "stateOnly s s"
  by (simp add: stateOnly_def)

lemma stateOnly_trans: "stateOnly s s1 \<Longrightarrow> stateOnly s1 s2 \<Longrightarrow> stateOnly s s2"
  by (simp add: stateOnly_def)

lemma stateFrame_modelFrame: "stateFrame (modelFrame nd) = stateFrame nd"
  by (simp add: stateFrame_def modelFrame_def)

lemma modelFrame_eq_stateFrame:
  "modelFrame a = modelFrame b \<Longrightarrow> stateFrame a = stateFrame b"
  by (metis stateFrame_modelFrame)

lemma modelOnly_stateOnly: "modelOnly s s' \<Longrightarrow> stateOnly s s'"
proof -
  assume h: "modelOnly s s'"
  then have "map modelFrame (nodes s') = map modelFrame (nodes s)"
    by (simp add: modelOnly_def)
  then have "map stateFrame (map modelFrame (nodes s')) = map stateFrame (map modelFrame (nodes s))"
    by simp
  then have "map stateFrame (nodes s') = map stateFrame (nodes s)"
    by (simp add: stateFrame_modelFrame comp_def)
  with h show ?thesis by (simp add: stateOnly_def modelOnly_def)
qed

lemma modelOnly_putNode:
  "getNode s n = Some nd \<Longrightarrow> modelFrame nd' = modelFrame nd \<Longrightarrow> modelOnly s (putNode s n nd')"
  by (auto simp: modelOnly_def putNode_def getNode_def map_update list_update_same_conv split: if_splits)

lemma modelOnly_getNode:
  "modelOnly s s' \<Longrightarrow> getNode s n = Some nd \<Longrightarrow>
   \<exists>nd'. getNode s' n = Some nd' \<and> modelFrame nd' = modelFrame nd"
  apply (auto simp: modelOnly_def getNode_def split: if_splits)
   apply (metis length_map nth_map)
  by (metis length_map)

lemma purgeModelItems_modelOnly:
  "purgeModelItems s n = Some s' \<Longrightarrow> modelOnly s s'"
  unfolding purgeModelItems_def
  by (auto simp: Let_def modelOnly_def putNode_def getNode_def modelFrame_def map_update list_update_same_conv split: Option.bind_splits if_splits option.splits)

lemma updatePlaceholder_modelOnly:
  "updatePlaceholder s n b = Some s' \<Longrightarrow> modelOnly s s'"
  unfolding updatePlaceholder_def
  by (auto simp: Let_def modelOnly_def putNode_def getNode_def modelFrame_def map_update list_update_same_conv split: Option.bind_splits if_splits option.splits)

lemma updateModelItems_modelOnly:
  "updateModelItems s n b = Some s' \<Longrightarrow> modelOnly s s'"
  unfolding updateModelItems_def
  apply (auto simp: Let_def  split: Option.bind_splits if_splits option.splits dest!: updatePlaceholder_modelOnly)
  apply (auto simp: Let_def modelOnly_def putNode_def getNode_def modelFrame_def map_update list_update_same_conv split: Option.bind_splits if_splits option.splits)
  done

lemma recomputeModelItems_modelOnly:
  "recomputeModelItems s n = Some s' \<Longrightarrow> modelOnly s s'"
  unfolding recomputeModelItems_def
  by (auto simp: modelOnly_refl split: Option.bind_splits NodeState.splits dest: updateModelItems_modelOnly purgeModelItems_modelOnly)

lemma modelOnly_frame:
  "modelOnly s s' \<Longrightarrow> map_option modelFrame (getNode s' m) = map_option modelFrame (getNode s m)"
  apply (auto simp: modelOnly_def getNode_def split: if_splits)
   apply (metis length_map nth_map)
   apply (metis length_map)
  by (metis length_map)

lemma stateOnly_frame:
  "stateOnly s s' \<Longrightarrow> map_option stateFrame (getNode s' m) = map_option stateFrame (getNode s m)"
  apply (auto simp: stateOnly_def getNode_def split: if_splits)
   apply (metis length_map nth_map)
   apply (metis length_map)
  by (metis length_map)

lemma modelOnly_length: "modelOnly s s' \<Longrightarrow> length (nodes s') = length (nodes s)"
  by (metis modelOnly_def length_map)

lemma stateOnly_length: "stateOnly s s' \<Longrightarrow> length (nodes s') = length (nodes s)"
  by (metis stateOnly_def length_map)

lemma modelFrame_fields:
  assumes "modelFrame a = modelFrame b"
  shows "myParent a = myParent b" and "fileData a = fileData b"
    and "childList a = childList b" and "folderContentsKnown a = folderContentsKnown b"
    and "nodeVisible a = nodeVisible b" and "myState a = myState b"
    and "fileDataBuffer a = fileDataBuffer b" and "lsTask a = lsTask b"
    and "bufferTask a = bufferTask b"
proof -
  have "myParent (modelFrame a) = myParent (modelFrame b)"
    and "fileData (modelFrame a) = fileData (modelFrame b)"
    and "childList (modelFrame a) = childList (modelFrame b)"
    and "folderContentsKnown (modelFrame a) = folderContentsKnown (modelFrame b)"
    and "nodeVisible (modelFrame a) = nodeVisible (modelFrame b)"
    and "myState (modelFrame a) = myState (modelFrame b)"
    and "fileDataBuffer (modelFrame a) = fileDataBuffer (modelFrame b)"
    and "lsTask (modelFrame a) = lsTask (modelFrame b)"
    and "bufferTask (modelFrame a) = bufferTask (modelFrame b)"
    using assms by simp_all
  then show "myParent a = myParent b" and "fileData a = fileData b"
    and "childList a = childList b" and "folderContentsKnown a = folderContentsKnown b"
    and "nodeVisible a = nodeVisible b" and "myState a = myState b"
    and "fileDataBuffer a = fileDataBuffer b" and "lsTask a = lsTask b"
    and "bufferTask a = bufferTask b"
    by (simp_all add: modelFrame_def)
qed

lemma stateFrame_fields:
  assumes "stateFrame a = stateFrame b"
  shows "myParent a = myParent b" and "fileData a = fileData b"
    and "childList a = childList b" and "folderContentsKnown a = folderContentsKnown b"
    and "nodeVisible a = nodeVisible b"
    and "fileDataBuffer a = fileDataBuffer b" and "lsTask a = lsTask b"
    and "bufferTask a = bufferTask b"
proof -
  have "myParent (stateFrame a) = myParent (stateFrame b)"
    and "fileData (stateFrame a) = fileData (stateFrame b)"
    and "childList (stateFrame a) = childList (stateFrame b)"
    and "folderContentsKnown (stateFrame a) = folderContentsKnown (stateFrame b)"
    and "nodeVisible (stateFrame a) = nodeVisible (stateFrame b)"
    and "fileDataBuffer (stateFrame a) = fileDataBuffer (stateFrame b)"
    and "lsTask (stateFrame a) = lsTask (stateFrame b)"
    and "bufferTask (stateFrame a) = bufferTask (stateFrame b)"
    using assms by simp_all
  then show "myParent a = myParent b" and "fileData a = fileData b"
    and "childList a = childList b" and "folderContentsKnown a = folderContentsKnown b"
    and "nodeVisible a = nodeVisible b"
    and "fileDataBuffer a = fileDataBuffer b" and "lsTask a = lsTask b"
    and "bufferTask a = bufferTask b"
    by (simp_all add: stateFrame_def)
qed

lemma modelOnly_node:
  "modelOnly s s' \<Longrightarrow> getNode s m = Some md \<Longrightarrow>
   \<exists>md'. getNode s' m = Some md' \<and> modelFrame md' = modelFrame md"
  using modelOnly_frame [of s s' m] by auto

lemma stateOnly_node:
  "stateOnly s s' \<Longrightarrow> getNode s m = Some md \<Longrightarrow>
   \<exists>md'. getNode s' m = Some md' \<and> stateFrame md' = stateFrame md"
  using stateOnly_frame [of s s' m] by auto

lemma stateOnly_node_rev:
  "stateOnly s s' \<Longrightarrow> getNode s' m = Some md' \<Longrightarrow>
   \<exists>md. getNode s m = Some md \<and> stateFrame md' = stateFrame md"
  using stateOnly_frame [of s s' m] by (cases "getNode s m") auto

text \<open>The state that node \<open>m\<close> is in, when \<open>m\<close> is allocated.\<close>

definition stateAt :: "store \<Rightarrow> nodeptr \<Rightarrow> NodeState option" where
  "stateAt s m = map_option myState (getNode s m)"

lemma modelOnly_stateAt: "modelOnly s s' \<Longrightarrow> stateAt s' m = stateAt s m"
proof -
  assume "modelOnly s s'"
  then have "map_option modelFrame (getNode s' m) = map_option modelFrame (getNode s m)"
    by (rule modelOnly_frame)
  then show ?thesis
    by (cases "getNode s m"; cases "getNode s' m") (auto simp: stateAt_def dest: modelFrame_fields(6))
qed

lemma changeNodeState_stateOnly:
  assumes "changeNodeState s n st = Some s'"
  shows "stateOnly s s'"
proof -
  obtain nd where nd: "getNode s n = Some nd"
    using assms by (auto simp: changeNodeState_def split: Option.bind_splits)
  show ?thesis
  proof (cases "myState nd = DELETING \<or> st = myState nd")
    case True
    with assms nd show ?thesis
      by (auto simp: changeNodeState_def stateOnly_refl split: if_splits)
  next
    case False
    define s2 where "s2 = (if st = DELETING
        then (putNode s n (nd\<lparr>myState := st\<rparr>))\<lparr>deleteLater := deleteLater (putNode s n (nd\<lparr>myState := st\<rparr>)) @ [n]\<rparr>
        else putNode s n (nd\<lparr>myState := st\<rparr>))"
    have a: "stateOnly s s2"
      using nd by (auto simp: s2_def stateOnly_def putNode_def getNode_def stateFrame_def
          map_update list_update_same_conv split: if_splits)
    from assms nd False obtain s3 s4 where
      s3: "recomputeModelItems s2 n = Some s3" and
      s4: "(case myParent nd of None \<Rightarrow> Some s3 | Some p \<Rightarrow> recomputeModelItems s3 p) = Some s4" and
      s': "s' = s4\<lparr>fileNodesChange := fileNodesChange s4 @ [fileData nd]\<rparr>"
      by (auto simp: changeNodeState_def Let_def s2_def split: Option.bind_splits if_splits)
    have b: "stateOnly s2 s3"
      using s3 by (blast intro: modelOnly_stateOnly recomputeModelItems_modelOnly)
    have c: "stateOnly s3 s4"
      using s4 by (auto split: option.splits intro: stateOnly_refl modelOnly_stateOnly recomputeModelItems_modelOnly)
    have d: "stateOnly s4 s'" by (simp add: s' stateOnly_def)
    from a b c d show ?thesis by (blast intro: stateOnly_trans)
  qed
qed

lemma changeNodeState_stateAt:
  assumes "changeNodeState s n st = Some s'"
  shows "stateAt s' m = (if m = n \<and> stateAt s n \<noteq> Some DELETING then Some st else stateAt s m)"
proof -
  obtain nd where nd: "getNode s n = Some nd"
    using assms by (auto simp: changeNodeState_def split: Option.bind_splits)
  show ?thesis
  proof (cases "myState nd = DELETING \<or> st = myState nd")
    case True
    with assms nd show ?thesis
      by (auto simp: changeNodeState_def stateAt_def split: if_splits)
  next
    case False
    define s2 where "s2 = (if st = DELETING
        then (putNode s n (nd\<lparr>myState := st\<rparr>))\<lparr>deleteLater := deleteLater (putNode s n (nd\<lparr>myState := st\<rparr>)) @ [n]\<rparr>
        else putNode s n (nd\<lparr>myState := st\<rparr>))"
    have a: "stateAt s2 m = (if m = n then Some st else stateAt s m)"
      using nd by (auto simp: s2_def stateAt_def putNode_def getNode_def split: if_splits)
    from assms nd False obtain s3 s4 where
      s3: "recomputeModelItems s2 n = Some s3" and
      s4: "(case myParent nd of None \<Rightarrow> Some s3 | Some p \<Rightarrow> recomputeModelItems s3 p) = Some s4" and
      s': "s' = s4\<lparr>fileNodesChange := fileNodesChange s4 @ [fileData nd]\<rparr>"
      by (auto simp: changeNodeState_def Let_def s2_def split: Option.bind_splits if_splits)
    have b: "stateAt s3 m = stateAt s2 m"
      using s3 by (blast intro: modelOnly_stateAt recomputeModelItems_modelOnly)
    have c: "stateAt s4 m = stateAt s3 m"
      using s4 by (auto split: option.splits intro: modelOnly_stateAt recomputeModelItems_modelOnly)
    have d: "stateAt s' m = stateAt s4 m" by (simp add: s' stateAt_def getNode_def)
    from a b c d False nd show ?thesis by (auto simp: stateAt_def)
  qed
qed

lemma recomputeNodeState_stateOnly:
  "recomputeNodeState s n = Some s' \<Longrightarrow> stateOnly s s'"
  unfolding recomputeNodeState_def
  by (auto simp: stateOnly_refl split: Option.bind_splits if_splits
           dest: changeNodeState_stateOnly)

text \<open>
  A function \<open>f\<close> of a node that \<open>noState\<close> holds of reads neither the state
  nor the model items. \<open>sameNodes f\<close> relates two stores with the same nodes up to
  \<open>f\<close>; \<open>moreNodes f\<close> allows the second store more nodes.
\<close>

definition sameNodes :: "(FileTreeNode \<Rightarrow> 'a) \<Rightarrow> store \<Rightarrow> store \<Rightarrow> bool" where
  "sameNodes f s s' = (map f (nodes s') = map f (nodes s))"

definition moreNodes :: "(FileTreeNode \<Rightarrow> 'a) \<Rightarrow> store \<Rightarrow> store \<Rightarrow> bool" where
  "moreNodes f s s' = prefix (map f (nodes s)) (map f (nodes s'))"

definition noState :: "(FileTreeNode \<Rightarrow> 'a) \<Rightarrow> bool" where
  "noState f = (\<forall>a b. stateFrame a = stateFrame b \<longrightarrow> f a = f b)"

lemma sameNodes_refl: "sameNodes f s s"
  by (simp add: sameNodes_def)

lemma sameNodes_trans: "sameNodes f s s1 \<Longrightarrow> sameNodes f s1 s2 \<Longrightarrow> sameNodes f s s2"
  by (simp add: sameNodes_def)

lemma moreNodes_refl: "moreNodes f s s"
  by (simp add: moreNodes_def)

lemma moreNodes_trans: "moreNodes f s s1 \<Longrightarrow> moreNodes f s1 s2 \<Longrightarrow> moreNodes f s s2"
  unfolding moreNodes_def by (rule prefix_order.trans)

lemma sameNodes_more: "sameNodes f s s' \<Longrightarrow> moreNodes f s s'"
  by (simp add: sameNodes_def moreNodes_def)

lemma sameNodes_length: "sameNodes f s s' \<Longrightarrow> length (nodes s') = length (nodes s)"
  by (metis sameNodes_def length_map)

lemma moreNodes_length: "moreNodes f s s' \<Longrightarrow> length (nodes s) \<le> length (nodes s')"
  by (metis moreNodes_def length_map prefix_length_le)

lemma sameNodes_getNode:
  "sameNodes f s s' \<Longrightarrow> map_option f (getNode s' m) = map_option f (getNode s m)"
  apply (auto simp: sameNodes_def getNode_def split: if_splits)
    apply (metis length_map nth_map)
   apply (metis length_map)
  by (metis length_map)

lemma moreNodes_getNode:
  assumes "moreNodes f s s'" and "getNode s m = Some nd"
  shows "\<exists>nd'. getNode s' m = Some nd' \<and> f nd' = f nd"
proof -
  from assms(1) obtain zs where zs: "map f (nodes s') = map f (nodes s) @ zs"
    by (auto simp: moreNodes_def prefix_def)
  from assms(2) have m: "m < length (nodes s)" and nd: "nd = nodes s ! m"
    by (auto simp: getNode_def split: if_splits)
  have len: "length (nodes s) \<le> length (nodes s')"
    using assms(1) by (rule moreNodes_length)
  have "map f (nodes s') ! m = map f (nodes s) ! m"
    using zs m by (simp add: nth_append)
  with m len have "f (nodes s' ! m) = f (nodes s ! m)" by simp
  with m len nd show ?thesis by (simp add: getNode_def)
qed

lemma noState_stateFrame:
  assumes "noState f"
  shows "f (stateFrame a) = f a"
proof -
  have "stateFrame (stateFrame a) = stateFrame a" by (simp add: stateFrame_def)
  with assms show ?thesis unfolding noState_def by blast
qed

lemma stateOnly_sameNodes:
  assumes "stateOnly s s'" and "noState f"
  shows "sameNodes f s s'"
proof -
  from assms(1) have "map stateFrame (nodes s') = map stateFrame (nodes s)"
    by (simp add: stateOnly_def)
  then have "map f (map stateFrame (nodes s')) = map f (map stateFrame (nodes s))"
    by simp
  then show ?thesis
    using assms(2) by (simp add: sameNodes_def comp_def noState_stateFrame)
qed

lemma sameNodes_putNode:
  "getNode s n = Some nd \<Longrightarrow> f nd' = f nd \<Longrightarrow> sameNodes f s (putNode s n nd')"
  by (auto simp: sameNodes_def putNode_def getNode_def map_update list_update_same_conv
           split: if_splits)

lemma noState_fields:
  "noState myParent" "noState fileData" "noState childList" "noState folderContentsKnown"
  "noState nodeVisible" "noState fileDataBuffer" "noState lsTask" "noState bufferTask"
  "noState (\<lambda>nd. ())"
  unfolding noState_def by (blast dest: stateFrame_fields)+


declare setNodeVisible.simps [simp del]

lemma setNodeVisible_unfold:
  assumes "getNode s n = Some nd"
  shows "setNodeVisible s n =
     (if nodeVisible nd then Some s
      else (case myParent nd of
              None \<Rightarrow> recomputeNodeState (putNode s n (nd\<lparr>nodeVisible := True\<rparr>)) n
            | Some p \<Rightarrow>
                Option.bind (setNodeVisible (putNode s n (nd\<lparr>nodeVisible := True\<rparr>)) p)
                  (\<lambda>s2. recomputeNodeState s2 n)))"
  using assms by (subst setNodeVisible.simps) (simp split: option.splits)

lemma setNodeVisible_Some_node:
  "setNodeVisible s n = Some s' \<Longrightarrow> \<exists>nd. getNode s n = Some nd"
  by (subst (asm) setNodeVisible.simps) (simp split: option.splits)

lemma setNodeVisible_sameNodes:
  assumes "noState f" and "\<And>nd. f (nd\<lparr>nodeVisible := True\<rparr>) = f nd"
  shows "setNodeVisible s n = Some s' \<Longrightarrow> sameNodes f s s'"
proof (induction s n arbitrary: s' rule: setNodeVisible.induct)
  case (1 s n)
  from "1.prems" obtain nd where nd: "getNode s n = Some nd"
    by (blast dest: setNodeVisible_Some_node)
  note unf = setNodeVisible_unfold [OF nd]
  show ?case
  proof (cases "nodeVisible nd")
    case True
    with "1.prems" show ?thesis by (simp add: unf sameNodes_refl)
  next
    case False
    let ?s1 = "putNode s n (nd\<lparr>nodeVisible := True\<rparr>)"
    have a: "sameNodes f s ?s1" using nd assms(2) by (simp add: sameNodes_putNode)
    show ?thesis
    proof (cases "myParent nd")
      case None
      with "1.prems" False have "recomputeNodeState ?s1 n = Some s'"
        by (simp add: unf)
      then have "sameNodes f ?s1 s'"
        using assms(1) by (blast intro: stateOnly_sameNodes recomputeNodeState_stateOnly)
      with a show ?thesis by (blast intro: sameNodes_trans)
    next
      case (Some p)
      with "1.prems" False obtain s2 where
        s2: "setNodeVisible ?s1 p = Some s2" and r: "recomputeNodeState s2 n = Some s'"
        by (auto simp: unf split: Option.bind_splits)
      have b: "sameNodes f ?s1 s2" using "1.IH" nd False Some s2 by blast
      have c: "sameNodes f s2 s'"
        using r assms(1) by (blast intro: stateOnly_sameNodes recomputeNodeState_stateOnly)
      from a b c show ?thesis by (blast intro: sameNodes_trans)
    qed
  qed
qed

subsection \<open>Tasks and the file buffer\<close>

text \<open>
  \<open>setFileBuffer\<close> replaces the buffer by a copy of the new one (or by
  \<open>nullptr\<close>), makes the node visible and recomputes its state.
\<close>

definition setFileBuffer :: "store \<Rightarrow> nodeptr \<Rightarrow> string option \<Rightarrow> store option" where
  "setFileBuffer s n newFileBuffer = do {
     nd \<leftarrow> getNode s n;
     s1 \<leftarrow> setNodeVisible (putNode s n (nd\<lparr>fileDataBuffer := newFileBuffer\<rparr>)) n;
     recomputeNodeState s1 n
   }"

text \<open>
  \<open>QObject::disconnect(task, nullptr, this, nullptr)\<close> removes every connection
  from the task to this node.
\<close>

definition disconnect :: "taskptr option \<Rightarrow> nodeptr
    \<Rightarrow> (taskptr \<times> nodeptr \<times> slot) list \<Rightarrow> (taskptr \<times> nodeptr \<times> slot) list" where
  "disconnect old n cs =
     (case old of
        None \<Rightarrow> cs
      | Some t \<Rightarrow> filter (\<lambda>c. \<not> (fst c = t \<and> fst (snd c) = n)) cs)"

definition setLStask :: "store \<Rightarrow> nodeptr \<Rightarrow> taskptr option \<Rightarrow> store option" where
  "setLStask s n newTask =
     (case newTask of
        None \<Rightarrow> Some s
      | Some t \<Rightarrow> do {
          nd \<leftarrow> getNode s n;
          if fileType (fileData nd) \<noteq> DIR then Some s
          else recomputeNodeState
                 (putNode
                    (s\<lparr>connections :=
                         disconnect (lsTask nd) n (connections s) @ [(t, n, SLOT_deliverLSdata)]\<rparr>)
                    n (nd\<lparr>lsTask := Some t\<rparr>))
                 n
        })"

definition setBuffTask :: "store \<Rightarrow> nodeptr \<Rightarrow> taskptr option \<Rightarrow> store option" where
  "setBuffTask s n newTask =
     (case newTask of
        None \<Rightarrow> Some s
      | Some t \<Rightarrow> do {
          nd \<leftarrow> getNode s n;
          if fileType (fileData nd) \<noteq> FILE then Some s
          else recomputeNodeState
                 (putNode
                    (s\<lparr>connections :=
                         disconnect (bufferTask nd) n (connections s)
                           @ [(t, n, SLOT_deliverBuffData)]\<rparr>)
                    n (nd\<lparr>bufferTask := Some t\<rparr>))
                 n
        })"

subsection \<open>Path search\<close>

text \<open>
  \<open>getChildNodeWithName\<close>: the first child with the file name whose type is not
  \<open>INVALID\<close>, or \<open>nullptr\<close>. The outer option is the method's result being
  defined, the inner one the pointer.
\<close>

fun findChildWithName :: "store \<Rightarrow> nodeptr list \<Rightarrow> string \<Rightarrow> nodeptr option option" where
  "findChildWithName s [] filename = Some None"
| "findChildWithName s (c # cs) filename = do {
     cn \<leftarrow> getNode s c;
     if fileName (fileData cn) = filename \<and> fileType (fileData cn) \<noteq> INVALID
     then Some (Some c)
     else findChildWithName s cs filename
   }"

definition getChildNodeWithName :: "store \<Rightarrow> nodeptr \<Rightarrow> string \<Rightarrow> nodeptr option option" where
  "getChildNodeWithName s n filename = do {
     nd \<leftarrow> getNode s n;
     findChildWithName s (childList nd) filename
   }"

fun pathSearchHelperFromAnyNode ::
  "store \<Rightarrow> nodeptr \<Rightarrow> string list \<Rightarrow> bool \<Rightarrow> nodeptr option option" where
  "pathSearchHelperFromAnyNode s searchNode [] stopEarly = Some (Some searchNode)"
| "pathSearchHelperFromAnyNode s searchNode (part # parts) stopEarly = do {
     nextNode \<leftarrow> getChildNodeWithName s searchNode part;
     case nextNode of
       None \<Rightarrow> if stopEarly then Some (Some searchNode) else Some None
     | Some c \<Rightarrow> pathSearchHelperFromAnyNode s c parts stopEarly
   }"

text \<open>
  \<open>FileMetaData::getPathNameList\<close>, which splits a path into its parts, is absent
  from the sources; the methods that call it take it as the parameter \<open>gpl\<close>.
\<close>

definition pathSearchHelper ::
  "(string \<Rightarrow> string list) \<Rightarrow> store \<Rightarrow> nodeptr \<Rightarrow> string \<Rightarrow> bool \<Rightarrow> nodeptr option option" where
  "pathSearchHelper gpl s n filename stopEarly = do {
     nd \<leftarrow> getNode s n;
     if myParent nd \<noteq> None then Some None
     else (case gpl filename of
             [] \<Rightarrow> Some None
           | rootName # filePathParts \<Rightarrow>
               if rootName \<noteq> fileName (fileData nd) then Some None
               else pathSearchHelperFromAnyNode s n filePathParts stopEarly)
   }"

definition getNodeWithName ::
  "(string \<Rightarrow> string list) \<Rightarrow> store \<Rightarrow> nodeptr \<Rightarrow> string \<Rightarrow> nodeptr option option" where
  "getNodeWithName gpl s n filename = pathSearchHelper gpl s n filename False"

fun getControlAddress :: "FileMetaData list \<Rightarrow> string" where
  "getControlAddress [] = []"
| "getControlAddress (e # es) =
     (if fileName e = ''.'' then containingPath e else getControlAddress es)"

text \<open>
  The loop \<open>while (myRootNode->myParent != nullptr) myRootNode = myRootNode->myParent\<close>
  of \<open>verifyControlNode\<close>. It has no result when the chain of parents does not end.
\<close>

partial_function (option) findRootNode :: "store \<Rightarrow> nodeptr \<Rightarrow> nodeptr option" where
  "findRootNode s n =
     (case getNode s n of
        None \<Rightarrow> None
      | Some nd \<Rightarrow> (case myParent nd of None \<Rightarrow> Some n | Some p \<Rightarrow> findRootNode s p))"

declare findRootNode.simps [code]

definition verifyControlNode ::
  "(string \<Rightarrow> string list) \<Rightarrow> store \<Rightarrow> nodeptr \<Rightarrow> FileMetaData list \<Rightarrow> bool option" where
  "verifyControlNode gpl s n newDataList =
     (let controllerAddress = getControlAddress newDataList in
      if controllerAddress = [] then Some False
      else do {
        myRootNode \<leftarrow> findRootNode s n;
        controllerNode \<leftarrow> getNodeWithName gpl s myRootNode controllerAddress;
        Some (controllerNode = Some n)
      })"

subsection \<open>Children\<close>

definition childrenOf :: "store \<Rightarrow> nodeptr \<Rightarrow> nodeptr list" where
  "childrenOf s n = (case getNode s n of None \<Rightarrow> [] | Some nd \<Rightarrow> childList nd)"

lemma stateOnly_childrenOf: "stateOnly s s' \<Longrightarrow> childrenOf s' n = childrenOf s n"
proof -
  assume "stateOnly s s'"
  then have "map_option stateFrame (getNode s' n) = map_option stateFrame (getNode s n)"
    by (rule stateOnly_frame)
  then show ?thesis
    by (cases "getNode s n"; cases "getNode s' n")
       (auto simp: childrenOf_def dest: stateFrame_fields(3))
qed

lemma childrenOf_putNode:
  "getNode s n = Some nd \<Longrightarrow> childrenOf (putNode s n nd') n = childList nd'"
  by (auto simp: childrenOf_def getNode_def putNode_def split: if_splits)

text \<open>
  \<open>clearAllChildren\<close>: while the child list is not empty, its last child is taken
  off and moved to \<open>DELETING\<close>.
\<close>

function clearAllChildren :: "store \<Rightarrow> nodeptr \<Rightarrow> store option" where
  "clearAllChildren s n =
     (case getNode s n of
        None \<Rightarrow> None
      | Some nd \<Rightarrow>
          if childList nd = [] then Some s
          else (case changeNodeState
                       (putNode s n (nd\<lparr>childList := butlast (childList nd)\<rparr>))
                       (last (childList nd)) DELETING of
                  None \<Rightarrow> None
                | Some s2 \<Rightarrow> clearAllChildren s2 n))"
  by pat_completeness auto
termination
proof (relation "measure (\<lambda>(s, n). length (childrenOf s n))")
  show "wf (measure (\<lambda>(s, n). length (childrenOf s n)))" by simp
next
  fix s :: store and n :: nodeptr and nd :: FileTreeNode and s2 :: store
  assume nd: "getNode s n = Some nd" and ne: "childList nd \<noteq> []"
    and ch: "changeNodeState (putNode s n (nd\<lparr>childList := butlast (childList nd)\<rparr>))
               (last (childList nd)) DELETING = Some s2"
  have "childrenOf s2 n = butlast (childList nd)"
    using changeNodeState_stateOnly [OF ch] nd
    by (simp add: stateOnly_childrenOf childrenOf_putNode)
  moreover have "childrenOf s n = childList nd"
    using nd by (simp add: childrenOf_def)
  ultimately show "((s2, n), (s, n)) \<in> measure (\<lambda>(s, n). length (childrenOf s n))"
    using ne by simp
qed

declare clearAllChildren.simps [simp del]

text \<open>
  The inner loop of \<open>purgeUnmatchedChildren\<close>: a child matches when an entry of
  the new list other than "." has its full path and its file type.
\<close>

fun matchFound :: "FileMetaData \<Rightarrow> FileMetaData list \<Rightarrow> bool" where
  "matchFound toCheck [] = False"
| "matchFound toCheck (e # es) =
     (if fileName e = ''.'' then matchFound toCheck es
      else if fullPath toCheck = fullPath e \<and> fileType toCheck = fileType e then True
      else matchFound toCheck es)"

text \<open>\<open>getFileData\<close> returns the node's file data by value.\<close>

definition getFileData :: "FileTreeNode \<Rightarrow> FileMetaData" where
  "getFileData nd = fileData nd"

text \<open>
  The first loop of \<open>purgeUnmatchedChildren\<close>: the last child is taken off the
  list; a matched child goes to \<open>altList\<close>, the others are moved to \<open>DELETING\<close>.
\<close>

function purgeLoop ::
  "store \<Rightarrow> nodeptr \<Rightarrow> FileMetaData list \<Rightarrow> nodeptr list \<Rightarrow> (store \<times> nodeptr list) option" where
  "purgeLoop s n newChildList altList =
     (case getNode s n of
        None \<Rightarrow> None
      | Some nd \<Rightarrow>
          if childList nd = [] then Some (s, altList)
          else (case getNode (putNode s n (nd\<lparr>childList := butlast (childList nd)\<rparr>))
                       (last (childList nd)) of
                  None \<Rightarrow> None
                | Some aNode \<Rightarrow>
                    if matchFound (getFileData aNode) newChildList
                    then purgeLoop (putNode s n (nd\<lparr>childList := butlast (childList nd)\<rparr>))
                           n newChildList (altList @ [last (childList nd)])
                    else (case changeNodeState
                                 (putNode s n (nd\<lparr>childList := butlast (childList nd)\<rparr>))
                                 (last (childList nd)) DELETING of
                            None \<Rightarrow> None
                          | Some s2 \<Rightarrow> purgeLoop s2 n newChildList altList)))"
  by pat_completeness auto
termination
proof (relation "measure (\<lambda>(s, n, l, a). length (childrenOf s n))")
  show "wf (measure (\<lambda>(s, n, l, a). length (childrenOf s n)))" by simp
next
  fix s :: store and n :: nodeptr and newChildList :: "FileMetaData list"
    and altList :: "nodeptr list" and nd :: FileTreeNode
  assume nd: "getNode s n = Some nd" and ne: "childList nd \<noteq> []"
  then show "((putNode s n (nd\<lparr>childList := butlast (childList nd)\<rparr>), n, newChildList,
               altList @ [last (childList nd)]), (s, n, newChildList, altList))
             \<in> measure (\<lambda>(s, n, l, a). length (childrenOf s n))"
    by (simp add: childrenOf_putNode) (simp add: childrenOf_def)
next
  fix s :: store and n :: nodeptr and newChildList :: "FileMetaData list"
    and altList :: "nodeptr list" and nd :: FileTreeNode and s2 :: store
  assume nd: "getNode s n = Some nd" and ne: "childList nd \<noteq> []"
    and ch: "changeNodeState (putNode s n (nd\<lparr>childList := butlast (childList nd)\<rparr>))
               (last (childList nd)) DELETING = Some s2"
  have "childrenOf s2 n = butlast (childList nd)"
    using changeNodeState_stateOnly [OF ch] nd
    by (simp add: stateOnly_childrenOf childrenOf_putNode)
  moreover have "childrenOf s n = childList nd"
    using nd by (simp add: childrenOf_def)
  ultimately show "((s2, n, newChildList, altList), (s, n, newChildList, altList))
                     \<in> measure (\<lambda>(s, n, l, a). length (childrenOf s n))"
    using ne by simp
qed

declare purgeLoop.simps [simp del]

text \<open>
  \<open>purgeUnmatchedChildren\<close>. The second loop appends the kept children to the (now
  empty) child list, last kept first, which restores their order.
\<close>

definition purgeUnmatchedChildren ::
  "store \<Rightarrow> nodeptr \<Rightarrow> FileMetaData list \<Rightarrow> store option" where
  "purgeUnmatchedChildren s n newChildList = do {
     nd \<leftarrow> getNode s n;
     if childList nd = [] then Some s
     else do {
       (s1, altList) \<leftarrow> purgeLoop s n newChildList [];
       nd1 \<leftarrow> getNode s1 n;
       Some (putNode s1 n (nd1\<lparr>childList := childList nd1 @ rev altList\<rparr>))
     }
   }"

subsection \<open>Constructors\<close>

text \<open>
  Modelled from the spec: the member initialisers of \<open>FileTreeNode\<close>, which stand in
  filetreenode.h, a header that is absent from the sources. A child node is
  constructed invisible; a new node has no children, no tasks, no buffer, no model
  items and unknown folder contents, and it starts in \<open>INIT\<close>, the state that
  \<open>recomputeModelItems\<close> passes over.
\<close>

definition newNode :: "nodeptr option \<Rightarrow> FileMetaData \<Rightarrow> FileTreeNode" where
  "newNode parent contents =
     \<lparr>myParent = parent, fileData = contents, childList = [],
      folderContentsKnown = False, nodeVisible = False, myState = INIT,
      fileDataBuffer = None, lsTask = None, bufferTask = None,
      modelItemList = [], decendantPlaceholderItem = None\<rparr>"

text \<open>
  \<open>FileTreeNode(FileMetaData contents, FileTreeNode * parent)\<close>: the node copies the
  file data, appends itself to its parent's child list and computes its state. The
  new node's pointer is the old number of nodes.
\<close>

definition newChildNode :: "store \<Rightarrow> FileMetaData \<Rightarrow> nodeptr \<Rightarrow> store option" where
  "newChildNode s contents parent = do {
     pn \<leftarrow> getNode s parent;
     let this = length (nodes s);
     let s1 = s\<lparr>nodes := nodes s @ [newNode (Some parent) contents]\<rparr>;
     recomputeNodeState (putNode s1 parent (pn\<lparr>childList := childList pn @ [this]\<rparr>)) this
   }"

text \<open>
  Modelled from the spec: \<open>RemoteDataInterface::removeDoubleSlashes\<close>, whose source
  is absent. The root's full path is "/" plus the root folder name, double slashes
  removed: of two slashes in a row the first is dropped.
\<close>

fun removeDoubleSlashes :: "string \<Rightarrow> string" where
  "removeDoubleSlashes (a # b # cs) =
     (if a = CHR ''/'' \<and> b = CHR ''/'' then removeDoubleSlashes (b # cs)
      else a # removeDoubleSlashes (b # cs))"
| "removeDoubleSlashes cs = cs"

text \<open>
  Modelled from the spec: the file data of a root node, that is a default-constructed
  \<open>FileMetaData\<close> after \<open>setFullFilePath(path)\<close> and \<open>setType(FileType::DIR)\<close>. The
  source of \<open>FileMetaData\<close> is absent: the full path is the path set and the type is
  \<open>DIR\<close>; the file name and the containing path that the class derives from the
  path, and the size of a default-constructed object, are parameters.
\<close>

record FileMetaDataOps =
  getPathNameList :: "string \<Rightarrow> string list"
  nameOfPath :: "string \<Rightarrow> string"
  containerOfPath :: "string \<Rightarrow> string"
  defaultSize :: int

definition rootFileData :: "FileMetaDataOps \<Rightarrow> string \<Rightarrow> FileMetaData" where
  "rootFileData ops path =
     \<lparr>fileName = nameOfPath ops path, containingPath = containerOfPath ops path,
      fullPath = path, fileType = DIR, fileSize = defaultSize ops\<rparr>"

text \<open>
  \<open>FileTreeNode(QString rootFolderName, FileOperator *, QObject *)\<close>. The result is
  the new store and the pointer to the root.
\<close>

definition newRootNode :: "FileMetaDataOps \<Rightarrow> store \<Rightarrow> string \<Rightarrow> (store \<times> nodeptr) option" where
  "newRootNode ops s rootFolderName = do {
     let path = removeDoubleSlashes (''/'' @ rootFolderName);
     let this = length (nodes s);
     let nd = (newNode None (rootFileData ops path))\<lparr>nodeVisible := True\<rparr>;
     s1 \<leftarrow> recomputeNodeState (s\<lparr>nodes := nodes s @ [nd]\<rparr>) this;
     Some (s1, this)
   }"

subsection \<open>Delivery of a listing\<close>

text \<open>
  The loop of \<open>insertFile\<close> over the children. On a match the method calls
  \<open>setSize\<close> on the object that \<open>getFileData()\<close> returned, a copy of the child's
  file data that is dropped at the end of the statement, and returns.
\<close>

fun insertFileLoop :: "store \<Rightarrow> nodeptr list \<Rightarrow> FileMetaData \<Rightarrow> bool option" where
  "insertFileLoop s [] newData = Some False"
| "insertFileLoop s (c # cs) newData = do {
     cn \<leftarrow> getNode s c;
     if fullPath newData = fullPath (getFileData cn) \<and>
        fileType newData = fileType (getFileData cn)
     then (let temporary =
                 (if fileSize newData \<noteq> fileSize (getFileData cn)
                  then (getFileData cn)\<lparr>fileSize := fileSize newData\<rparr>
                  else getFileData cn)
           in Some True)
     else insertFileLoop s cs newData
   }"

definition insertFile :: "store \<Rightarrow> nodeptr \<Rightarrow> FileMetaData \<Rightarrow> store option" where
  "insertFile s n newData =
     (if fileName newData = ''.'' then Some s
      else do {
        nd \<leftarrow> getNode s n;
        returned \<leftarrow> insertFileLoop s (childList nd) newData;
        if returned then Some s else newChildNode s newData n
      })"

fun insertFiles :: "store \<Rightarrow> nodeptr \<Rightarrow> FileMetaData list \<Rightarrow> store option" where
  "insertFiles s n [] = Some s"
| "insertFiles s n (e # es) = do { s1 \<leftarrow> insertFile s n e; insertFiles s1 n es }"

fun setNodesVisible :: "store \<Rightarrow> nodeptr list \<Rightarrow> store option" where
  "setNodesVisible s [] = Some s"
| "setNodesVisible s (c # cs) = do { s1 \<leftarrow> setNodeVisible s c; setNodesVisible s1 cs }"

definition updateFileNodeData :: "store \<Rightarrow> nodeptr \<Rightarrow> FileMetaData list \<Rightarrow> store option" where
  "updateFileNodeData s n newDataList = do {
     nd \<leftarrow> getNode s n;
     let s0 = putNode s n (nd\<lparr>folderContentsKnown := True\<rparr>);
     if length newDataList \<le> 1 then do {
       s1 \<leftarrow> clearAllChildren s0 n;
       recomputeNodeState s1 n
     } else do {
       s1 \<leftarrow> purgeUnmatchedChildren s0 n newDataList;
       s2 \<leftarrow> insertFiles s1 n newDataList;
       nd2 \<leftarrow> getNode s2 n;
       s3 \<leftarrow> setNodesVisible s2 (childList nd2);
       recomputeNodeState s3 n
     }
   }"

definition deliverLSdata ::
  "(string \<Rightarrow> string list) \<Rightarrow> store \<Rightarrow> nodeptr \<Rightarrow> RequestState \<Rightarrow> FileMetaData list
     \<Rightarrow> store option" where
  "deliverLSdata gpl s n taskState dataList = do {
     nd \<leftarrow> getNode s n;
     let s0 = putNode s n (nd\<lparr>lsTask := None\<rparr>);
     if taskState = GOOD then do {
       verified \<leftarrow> verifyControlNode gpl s0 n dataList;
       if \<not> verified then recomputeNodeState s0 n
       else updateFileNodeData s0 n dataList
     }
     else if taskState = FILE_NOT_FOUND then changeNodeState s0 n DELETING
     else recomputeNodeState s0 n
   }"

text \<open>The byte array of a reply is \<open>None\<close> when \<open>bufferData.isNull()\<close>.\<close>

definition deliverBuffData ::
  "store \<Rightarrow> nodeptr \<Rightarrow> RequestState \<Rightarrow> string option \<Rightarrow> store option" where
  "deliverBuffData s n taskState bufferData = do {
     nd \<leftarrow> getNode s n;
     let s0 = putNode s n (nd\<lparr>bufferTask := None\<rparr>);
     if taskState = GOOD then
       (case bufferData of
          None \<Rightarrow> setFileBuffer s0 n None
        | Some bytes \<Rightarrow> setFileBuffer s0 n (Some bytes))
     else if taskState = FILE_NOT_FOUND then changeNodeState s0 n DELETING
     else recomputeNodeState s0 n
   }"

definition deleteFolderContentsData :: "store \<Rightarrow> nodeptr \<Rightarrow> store option" where
  "deleteFolderContentsData s n = do {
     nd \<leftarrow> getNode s n;
     clearAllChildren (putNode s n (nd\<lparr>folderContentsKnown := False\<rparr>)) n
   }"

subsection \<open>What the loops leave alone\<close>

lemma clearAllChildren_unfold:
  assumes "getNode s n = Some nd"
  shows "clearAllChildren s n =
     (if childList nd = [] then Some s
      else Option.bind
             (changeNodeState (putNode s n (nd\<lparr>childList := butlast (childList nd)\<rparr>))
                (last (childList nd)) DELETING)
             (\<lambda>s2. clearAllChildren s2 n))"
  using assms by (subst clearAllChildren.simps) (simp split: option.splits)

lemma clearAllChildren_Some_node:
  "clearAllChildren s n = Some s' \<Longrightarrow> \<exists>nd. getNode s n = Some nd"
  by (subst (asm) clearAllChildren.simps) (simp split: option.splits)

lemma clearAllChildren_sameNodes:
  assumes "noState f" and "\<And>nd cs. f (nd\<lparr>childList := cs\<rparr>) = f nd"
  shows "clearAllChildren s n = Some s' \<Longrightarrow> sameNodes f s s'"
proof (induction s n arbitrary: s' rule: clearAllChildren.induct)
  case (1 s n)
  from "1.prems" obtain nd where nd: "getNode s n = Some nd"
    by (blast dest: clearAllChildren_Some_node)
  note unf = clearAllChildren_unfold [OF nd]
  show ?case
  proof (cases "childList nd = []")
    case True
    with "1.prems" show ?thesis by (simp add: unf sameNodes_refl)
  next
    case False
    let ?s1 = "putNode s n (nd\<lparr>childList := butlast (childList nd)\<rparr>)"
    from "1.prems" False obtain s2 where
      s2: "changeNodeState ?s1 (last (childList nd)) DELETING = Some s2"
      and r: "clearAllChildren s2 n = Some s'"
      by (auto simp: unf split: Option.bind_splits)
    have a: "sameNodes f s ?s1" using nd assms(2) by (simp add: sameNodes_putNode)
    have b: "sameNodes f ?s1 s2"
      using s2 assms(1) by (blast intro: stateOnly_sameNodes changeNodeState_stateOnly)
    have c: "sameNodes f s2 s'" using "1.IH" nd False s2 r by blast
    from a b c show ?thesis by (blast intro: sameNodes_trans)
  qed
qed

lemma purgeLoop_unfold:
  assumes "getNode s n = Some nd"
  shows "purgeLoop s n l alt =
     (if childList nd = [] then Some (s, alt)
      else (case getNode (putNode s n (nd\<lparr>childList := butlast (childList nd)\<rparr>))
                   (last (childList nd)) of
              None \<Rightarrow> None
            | Some aNode \<Rightarrow>
                if matchFound (getFileData aNode) l
                then purgeLoop (putNode s n (nd\<lparr>childList := butlast (childList nd)\<rparr>))
                       n l (alt @ [last (childList nd)])
                else Option.bind
                       (changeNodeState
                          (putNode s n (nd\<lparr>childList := butlast (childList nd)\<rparr>))
                          (last (childList nd)) DELETING)
                       (\<lambda>s2. purgeLoop s2 n l alt)))"
  using assms by (subst purgeLoop.simps) (simp split: option.splits)

lemma purgeLoop_Some_node:
  "purgeLoop s n l alt = Some r \<Longrightarrow> \<exists>nd. getNode s n = Some nd"
  by (subst (asm) purgeLoop.simps) (simp split: option.splits)

lemma purgeLoop_sameNodes:
  assumes "noState f" and "\<And>nd cs. f (nd\<lparr>childList := cs\<rparr>) = f nd"
  shows "purgeLoop s n l alt = Some (s', alt') \<Longrightarrow> sameNodes f s s'"
proof (induction s n l alt arbitrary: s' alt' rule: purgeLoop.induct)
  case (1 s n l alt)
  from "1.prems" obtain nd where nd: "getNode s n = Some nd"
    by (blast dest: purgeLoop_Some_node)
  note unf = purgeLoop_unfold [OF nd]
  show ?case
  proof (cases "childList nd = []")
    case True
    with "1.prems" show ?thesis by (simp add: unf sameNodes_refl)
  next
    case False
    let ?s1 = "putNode s n (nd\<lparr>childList := butlast (childList nd)\<rparr>)"
    have a: "sameNodes f s ?s1" using nd assms(2) by (simp add: sameNodes_putNode)
    from "1.prems" False obtain aNode where an: "getNode ?s1 (last (childList nd)) = Some aNode"
      by (auto simp: unf split: option.splits)
    show ?thesis
    proof (cases "matchFound (getFileData aNode) l")
      case True
      with "1.prems" False an have "purgeLoop ?s1 n l (alt @ [last (childList nd)]) = Some (s', alt')"
        by (simp add: unf)
      with "1.IH"(1) nd False an True have "sameNodes f ?s1 s'" by blast
      with a show ?thesis by (blast intro: sameNodes_trans)
    next
      case nomatch: False
      with "1.prems" False an obtain s2 where
        s2: "changeNodeState ?s1 (last (childList nd)) DELETING = Some s2"
        and r: "purgeLoop s2 n l alt = Some (s', alt')"
        by (auto simp: unf split: Option.bind_splits)
      have b: "sameNodes f ?s1 s2"
        using s2 assms(1) by (blast intro: stateOnly_sameNodes changeNodeState_stateOnly)
      have c: "sameNodes f s2 s'" using "1.IH"(2) nd False an nomatch s2 r by blast
      from a b c show ?thesis by (blast intro: sameNodes_trans)
    qed
  qed
qed

lemma purgeUnmatchedChildren_sameNodes:
  assumes "noState f" and "\<And>nd cs. f (nd\<lparr>childList := cs\<rparr>) = f nd"
    and "purgeUnmatchedChildren s n l = Some s'"
  shows "sameNodes f s s'"
proof -
  from assms(3) obtain nd where nd: "getNode s n = Some nd"
    by (auto simp: purgeUnmatchedChildren_def split: Option.bind_splits)
  show ?thesis
  proof (cases "childList nd = []")
    case True
    with assms(3) nd show ?thesis by (simp add: purgeUnmatchedChildren_def sameNodes_refl)
  next
    case False
    with assms(3) nd obtain s1 alt nd1 where
      p: "purgeLoop s n l [] = Some (s1, alt)" and nd1: "getNode s1 n = Some nd1"
      and s': "s' = putNode s1 n (nd1\<lparr>childList := childList nd1 @ rev alt\<rparr>)"
      by (auto simp: purgeUnmatchedChildren_def split: Option.bind_splits)
    have a: "sameNodes f s s1" using p assms(1,2) by (rule purgeLoop_sameNodes [rotated 2])
    have b: "sameNodes f s1 s'" using nd1 assms(2) by (simp add: s' sameNodes_putNode)
    from a b show ?thesis by (blast intro: sameNodes_trans)
  qed
qed

lemma newChildNode_moreNodes:
  assumes "noState f" and "\<And>nd cs. f (nd\<lparr>childList := cs\<rparr>) = f nd"
    and "newChildNode s contents parent = Some s'"
  shows "moreNodes f s s'" and "length (nodes s') = Suc (length (nodes s))"
proof -
  from assms(3) obtain pn where pn: "getNode s parent = Some pn"
    by (auto simp: newChildNode_def split: Option.bind_splits)
  let ?s1 = "s\<lparr>nodes := nodes s @ [newNode (Some parent) contents]\<rparr>"
  let ?s2 = "putNode ?s1 parent (pn\<lparr>childList := childList pn @ [length (nodes s)]\<rparr>)"
  from assms(3) pn have r: "recomputeNodeState ?s2 (length (nodes s)) = Some s'"
    by (simp add: newChildNode_def Let_def)
  have a: "moreNodes f s ?s1" by (simp add: moreNodes_def)
  have g: "getNode ?s1 parent = Some pn"
    using pn by (auto simp: getNode_def nth_append split: if_splits)
  have b: "sameNodes f ?s1 ?s2" using g assms(2) by (simp add: sameNodes_putNode)
  have so: "stateOnly ?s2 s'" using r by (rule recomputeNodeState_stateOnly)
  have c: "sameNodes f ?s2 s'" using so assms(1) by (rule stateOnly_sameNodes)
  from a b c show "moreNodes f s s'"
    by (blast intro: moreNodes_trans sameNodes_more)
  show "length (nodes s') = Suc (length (nodes s))"
    using stateOnly_length [OF so] by (simp add: putNode_def)
qed

lemma insertFile_moreNodes:
  assumes "noState f" and "\<And>nd cs. f (nd\<lparr>childList := cs\<rparr>) = f nd"
    and "insertFile s n e = Some s'"
  shows "moreNodes f s s'"
  using assms(3)
  by (auto simp: insertFile_def moreNodes_refl split: if_splits Option.bind_splits
           intro: newChildNode_moreNodes(1) [OF assms(1,2)])

lemma insertFiles_moreNodes:
  assumes "noState f" and "\<And>nd cs. f (nd\<lparr>childList := cs\<rparr>) = f nd"
  shows "insertFiles s n es = Some s' \<Longrightarrow> moreNodes f s s'"
proof (induction es arbitrary: s)
  case Nil
  then show ?case by (simp add: moreNodes_refl)
next
  case (Cons e es)
  then obtain s1 where a: "insertFile s n e = Some s1" and b: "insertFiles s1 n es = Some s'"
    by (auto split: Option.bind_splits)
  from a have "moreNodes f s s1" by (rule insertFile_moreNodes [OF assms])
  moreover from b have "moreNodes f s1 s'" by (rule Cons.IH)
  ultimately show ?case by (rule moreNodes_trans)
qed

lemma setNodesVisible_sameNodes:
  assumes "noState f" and "\<And>nd. f (nd\<lparr>nodeVisible := True\<rparr>) = f nd"
  shows "setNodesVisible s cs = Some s' \<Longrightarrow> sameNodes f s s'"
proof (induction cs arbitrary: s)
  case Nil
  then show ?case by (simp add: sameNodes_refl)
next
  case (Cons c cs)
  then obtain s1 where a: "setNodeVisible s c = Some s1" and b: "setNodesVisible s1 cs = Some s'"
    by (auto split: Option.bind_splits)
  from a have "sameNodes f s s1" by (rule setNodeVisible_sameNodes [OF assms])
  moreover from b have "sameNodes f s1 s'" by (rule Cons.IH)
  ultimately show ?case by (rule sameNodes_trans)
qed

text \<open>Functions of a node that read none of the members a delivered listing writes.\<close>

definition noListing :: "(FileTreeNode \<Rightarrow> 'a) \<Rightarrow> bool" where
  "noListing f = (noState f \<and> (\<forall>nd cs. f (nd\<lparr>childList := cs\<rparr>) = f nd) \<and>
     (\<forall>nd b. f (nd\<lparr>nodeVisible := b\<rparr>) = f nd) \<and>
     (\<forall>nd b. f (nd\<lparr>folderContentsKnown := b\<rparr>) = f nd))"

lemma updateFileNodeData_moreNodes:
  assumes f: "noListing f" and run: "updateFileNodeData s n l = Some s'"
  shows "moreNodes f s s'"
proof -
  from f have ns: "noState f" and cl: "\<And>nd cs. f (nd\<lparr>childList := cs\<rparr>) = f nd"
    and vis: "\<And>nd. f (nd\<lparr>nodeVisible := True\<rparr>) = f nd"
    and fk: "\<And>nd. f (nd\<lparr>folderContentsKnown := True\<rparr>) = f nd"
    by (simp_all add: noListing_def)
  from run obtain nd where nd: "getNode s n = Some nd"
    by (auto simp: updateFileNodeData_def split: Option.bind_splits)
  let ?s0 = "putNode s n (nd\<lparr>folderContentsKnown := True\<rparr>)"
  have a: "sameNodes f s ?s0" using nd fk by (simp add: sameNodes_putNode)
  show ?thesis
  proof (cases "length l \<le> 1")
    case True
    with run nd obtain s1 where c: "clearAllChildren ?s0 n = Some s1"
      and r: "recomputeNodeState s1 n = Some s'"
      by (auto simp: updateFileNodeData_def Let_def split: Option.bind_splits)
    have b: "sameNodes f ?s0 s1" using c by (rule clearAllChildren_sameNodes [OF ns cl])
    have d: "sameNodes f s1 s'"
      using r ns by (blast intro: stateOnly_sameNodes recomputeNodeState_stateOnly)
    from a b d show ?thesis by (blast intro: sameNodes_trans sameNodes_more)
  next
    case False
    with run nd obtain s1 s2 nd2 s3 where p: "purgeUnmatchedChildren ?s0 n l = Some s1"
      and i: "insertFiles s1 n l = Some s2" and nd2: "getNode s2 n = Some nd2"
      and v: "setNodesVisible s2 (childList nd2) = Some s3"
      and r: "recomputeNodeState s3 n = Some s'"
      by (auto simp: updateFileNodeData_def Let_def split: Option.bind_splits)
    have b: "sameNodes f ?s0 s1" using p by (rule purgeUnmatchedChildren_sameNodes [OF ns cl])
    have c: "moreNodes f s1 s2" using i by (rule insertFiles_moreNodes [OF ns cl])
    have d: "sameNodes f s2 s3" using v by (rule setNodesVisible_sameNodes [OF ns vis])
    have e: "sameNodes f s3 s'"
      using r ns by (blast intro: stateOnly_sameNodes recomputeNodeState_stateOnly)
    from a b c d e show ?thesis by (blast intro: moreNodes_trans sameNodes_more)
  qed
qed

lemma setFileBuffer_sameNodes:
  assumes ns: "noState f" and vis: "\<And>nd. f (nd\<lparr>nodeVisible := True\<rparr>) = f nd"
    and buf: "\<And>nd b. f (nd\<lparr>fileDataBuffer := b\<rparr>) = f nd"
    and run: "setFileBuffer s n b = Some s'"
  shows "sameNodes f s s'"
proof -
  from run obtain nd s1 where nd: "getNode s n = Some nd"
    and v: "setNodeVisible (putNode s n (nd\<lparr>fileDataBuffer := b\<rparr>)) n = Some s1"
    and r: "recomputeNodeState s1 n = Some s'"
    by (auto simp: setFileBuffer_def split: Option.bind_splits)
  have a: "sameNodes f s (putNode s n (nd\<lparr>fileDataBuffer := b\<rparr>))"
    using nd buf by (simp add: sameNodes_putNode)
  have c: "sameNodes f (putNode s n (nd\<lparr>fileDataBuffer := b\<rparr>)) s1"
    using v by (rule setNodeVisible_sameNodes [OF ns vis])
  have d: "sameNodes f s1 s'"
    using r ns by (blast intro: stateOnly_sameNodes recomputeNodeState_stateOnly)
  from a c d show ?thesis by (blast intro: sameNodes_trans)
qed

section \<open>Definitions for the properties\<close>

text \<open>
  The example stores, the predicates in which the properties below are stated, and the
  relations between stores that their proofs compose.
\<close>

text \<open>
  An instance of the absent path functions, for the examples: a path is split at the
  slashes, and empty parts are dropped.
\<close>

fun splitPath :: "string \<Rightarrow> string \<Rightarrow> string list" where
  "splitPath acc [] = (if acc = [] then [] else [acc])"
| "splitPath acc (c # cs) =
     (if c = CHR ''/'' then (if acc = [] then splitPath [] cs else acc # splitPath [] cs)
      else splitPath (acc @ [c]) cs)"

definition exampleOps :: FileMetaDataOps where
  "exampleOps =
     \<lparr>getPathNameList = splitPath [],
      nameOfPath = (\<lambda>p. case rev (splitPath [] p) of [] \<Rightarrow> [] | x # _ \<Rightarrow> x),
      containerOfPath = (\<lambda>p. concat (map (\<lambda>x. CHR ''/'' # x) (butlast (splitPath [] p)))),
      defaultSize = 0\<rparr>"

definition emptyStore :: "nat \<Rightarrow> store" where
  "emptyStore cols =
     \<lparr>nodes = [], myModel = [], columnCount = cols, nextItem = 0,
      deleteLater = [], fileNodesChange = [], connections = []\<rparr>"

definition entry :: "string \<Rightarrow> string \<Rightarrow> FileType \<Rightarrow> int \<Rightarrow> FileMetaData" where
  "entry dir name t sz =
     \<lparr>fileName = name, containingPath = dir, fullPath = dir @ ''/'' @ name,
      fileType = t, fileSize = sz\<rparr>"

text \<open>A store with one node: a visible root folder that has not computed its state.\<close>

definition exRootNode :: FileTreeNode where
  "exRootNode = (newNode None (entry [] ''home'' DIR 0))\<lparr>nodeVisible := True\<rparr>"

definition exStore1 :: store where
  "exStore1 = (emptyStore 1)\<lparr>nodes := [exRootNode]\<rparr>"

text \<open>
  The state that the description of \<open>recomputeNodeState\<close> assigns to a node, as a
  function of its file type, its visibility, its pending task and what is known of
  its contents or its buffer.
\<close>

definition folderState :: "bool \<Rightarrow> bool \<Rightarrow> bool \<Rightarrow> bool \<Rightarrow> NodeState" where
  "folderState visible lsPending hasChildren contentsKnown =
     (if \<not> visible then (if lsPending then FOLDER_SPECULATE_LOADING else FOLDER_SPECULATE_IDLE)
      else if lsPending
        then (if hasChildren then FOLDER_CONTENTS_RELOADING else FOLDER_CONTENTS_LOADING)
        else (if contentsKnown then FOLDER_CONTENTS_LOADED else FOLDER_KNOWN_CONTENTS_NOT))"

definition fileState :: "bool \<Rightarrow> bool \<Rightarrow> bool \<Rightarrow> NodeState" where
  "fileState visible buffPending hasBuffer =
     (if \<not> visible then (if buffPending then FILE_SPECULATE_LOADING else FILE_SPECULATE_IDLE)
      else if buffPending
        then (if hasBuffer then FILE_BUFF_RELOADING else FILE_BUFF_LOADING)
        else (if hasBuffer then FILE_BUFF_LOADED else FILE_KNOWN))"

definition claimedNodeState :: "FileTreeNode \<Rightarrow> NodeState" where
  "claimedNodeState nd =
     (case fileType (fileData nd) of
        DIR \<Rightarrow> folderState (nodeVisible nd) (lsTask nd \<noteq> None) (childList nd \<noteq> [])
                 (folderContentsKnown nd)
      | FILE \<Rightarrow> fileState (nodeVisible nd) (bufferTask nd \<noteq> None) (fileDataBuffer nd \<noteq> None)
      | INVALID \<Rightarrow> ERROR
      | OTHER_FILE_TYPE \<Rightarrow> ERROR)"

text \<open>A call of one of the two methods that write the state, on some node.\<close>

datatype stateCall = ChangeNodeState NodeState | RecomputeNodeState

fun runStateCall :: "store \<Rightarrow> nodeptr \<times> stateCall \<Rightarrow> store option" where
  "runStateCall s (m, ChangeNodeState newState) = changeNodeState s m newState"
| "runStateCall s (m, RecomputeNodeState) = recomputeNodeState s m"

fun runStateCalls :: "store \<Rightarrow> (nodeptr \<times> stateCall) list \<Rightarrow> store option" where
  "runStateCalls s [] = Some s"
| "runStateCalls s (c # cs) = do { s1 \<leftarrow> runStateCall s c; runStateCalls s1 cs }"

text \<open>A store whose only node is in \<open>DELETING\<close>.\<close>

definition exDeletingNode :: FileTreeNode where
  "exDeletingNode = (newNode None (entry [] ''home'' DIR 0))\<lparr>myState := DELETING\<rparr>"

definition exStore2 :: store where
  "exStore2 = (emptyStore 1)\<lparr>nodes := [exDeletingNode]\<rparr>"

definition lsTaskAt :: "store \<Rightarrow> nodeptr \<Rightarrow> taskptr option option" where
  "lsTaskAt s n = map_option lsTask (getNode s n)"

definition bufferTaskAt :: "store \<Rightarrow> nodeptr \<Rightarrow> taskptr option option" where
  "bufferTaskAt s n = map_option bufferTask (getNode s n)"

text \<open>
  A root folder with a pending ls task, and a root folder with an invisible file below
  it.
\<close>

definition exStore3 :: store where
  "exStore3 = (emptyStore 1)\<lparr>nodes := [exRootNode\<lparr>lsTask := Some 5\<rparr>],
                             connections := [(5, 0, SLOT_deliverLSdata)]\<rparr>"

definition exFileNode :: FileTreeNode where
  "exFileNode = newNode (Some 0) (entry ''/home'' ''a'' FILE 3)"

definition exStore4 :: store where
  "exStore4 = (emptyStore 1)\<lparr>nodes := [exRootNode\<lparr>childList := [1]\<rparr>, exFileNode]\<rparr>"

text \<open>The value of a member of node \<open>n\<close>, when \<open>n\<close> is allocated.\<close>

definition fieldAt :: "(FileTreeNode \<Rightarrow> 'a) \<Rightarrow> store \<Rightarrow> nodeptr \<Rightarrow> 'a option" where
  "fieldAt f s n = map_option f (getNode s n)"

text \<open>The members that a failed request must leave alone.\<close>

definition contentsOf :: "FileTreeNode \<Rightarrow> nodeptr list \<times> bool \<times> string option" where
  "contentsOf nd = (childList nd, folderContentsKnown nd, fileDataBuffer nd)"

text \<open>The file of \<open>exStore4\<close> with a pending buffer task.\<close>

definition exStore5 :: store where
  "exStore5 = (emptyStore 1)\<lparr>nodes := [exRootNode\<lparr>childList := [1]\<rparr>,
                                         exFileNode\<lparr>bufferTask := Some 9\<rparr>]\<rparr>"

text \<open>
  Between two stores related by \<open>onlyFresh\<close> the item model has gained only items
  that were created in between.
\<close>

definition onlyFresh :: "store \<Rightarrow> store \<Rightarrow> bool" where
  "onlyFresh s s' = (nextItem s \<le> nextItem s' \<and>
     (\<forall>i. isValid (myModel s') i \<longrightarrow> isValid (myModel s) i \<or> nextItem s \<le> i))"

text \<open>The model items that node \<open>m\<close> holds.\<close>

definition itemsOf :: "FileTreeNode \<Rightarrow> item list \<times> item option" where
  "itemsOf nd = (modelItemList nd, decendantPlaceholderItem nd)"

text \<open>
  A loaded root folder with one visible subfolder whose contents are not known: the
  item model shows the root, the subfolder below it, and the placeholder below that.
\<close>

definition exFolderNode :: FileTreeNode where
  "exFolderNode = (newNode (Some 0) (entry ''/home'' ''b'' DIR 0))
     \<lparr>nodeVisible := True, myState := FOLDER_KNOWN_CONTENTS_NOT,
      modelItemList := [1], decendantPlaceholderItem := Some 2\<rparr>"

definition exStore6 :: store where
  "exStore6 = (emptyStore 1)
     \<lparr>nodes := [exRootNode\<lparr>childList := [1], folderContentsKnown := True,
                            myState := FOLDER_CONTENTS_LOADED, modelItemList := [0]\<rparr>,
                exFolderNode],
      myModel := [QRow [0] [QRow [1] [QRow [2] []]]],
      nextItem := 3\<rparr>"

text \<open>
  Between two stores related by \<open>deletingKept\<close> every node in \<open>DELETING\<close> is still
  in \<open>DELETING\<close>, and every node queued for deletion is still queued.
\<close>

definition deletingKept :: "store \<Rightarrow> store \<Rightarrow> bool" where
  "deletingKept s s' = ((\<forall>c. stateAt s c = Some DELETING \<longrightarrow> stateAt s' c = Some DELETING) \<and>
     set (deleteLater s) \<subseteq> set (deleteLater s'))"

text \<open>
  The constructor of a root node, the public methods of filetreenode.cpp that write to
  the tree, and its two slots.
\<close>

datatype operation =
    NewRootNode string
  | DeleteFolderContentsData nodeptr
  | SetFileBuffer nodeptr "string option"
  | SetLStask nodeptr "taskptr option"
  | SetBuffTask nodeptr "taskptr option"
  | DeliverLSdata nodeptr RequestState "FileMetaData list"
  | DeliverBuffData nodeptr RequestState "string option"

fun step :: "FileMetaDataOps \<Rightarrow> store \<Rightarrow> operation \<Rightarrow> store option" where
  "step ops s (NewRootNode rootFolderName) = map_option fst (newRootNode ops s rootFolderName)"
| "step ops s (DeleteFolderContentsData n) = deleteFolderContentsData s n"
| "step ops s (SetFileBuffer n newFileBuffer) = setFileBuffer s n newFileBuffer"
| "step ops s (SetLStask n newTask) = setLStask s n newTask"
| "step ops s (SetBuffTask n newTask) = setBuffTask s n newTask"
| "step ops s (DeliverLSdata n taskState dataList) =
     deliverLSdata (getPathNameList ops) s n taskState dataList"
| "step ops s (DeliverBuffData n taskState bufferData) = deliverBuffData s n taskState bufferData"


text \<open>What the description of a new root node speaks of.\<close>

definition rootView ::
  "FileTreeNode \<Rightarrow> nodeptr option \<times> bool \<times> FileType \<times> string \<times> nodeptr list \<times> bool" where
  "rootView nd = (myParent nd, nodeVisible nd, fileType (fileData nd), fullPath (fileData nd),
                  childList nd, folderContentsKnown nd)"

definition visAt :: "store \<Rightarrow> nodeptr \<Rightarrow> bool" where
  "visAt s m = (fieldAt nodeVisible s m = Some True)"

text \<open>
  \<open>visGrows s s'\<close>: the nodes of \<open>s\<close> are nodes of \<open>s'\<close> with the same parents,
  the visible ones are still visible, and a node that is visible in \<open>s'\<close> and was not
  in \<open>s\<close> has no parent or a visible one.
\<close>

definition visGrows :: "store \<Rightarrow> store \<Rightarrow> bool" where
  "visGrows s s' = (moreNodes myParent s s' \<and> (\<forall>m. visAt s m \<longrightarrow> visAt s' m) \<and>
     (\<forall>m p. visAt s' m \<and> \<not> visAt s m \<and> fieldAt myParent s' m = Some (Some p)
        \<longrightarrow> visAt s' p))"

text \<open>A node that is visible has no parent or a visible one.\<close>

definition visibleUpward :: "store \<Rightarrow> bool" where
  "visibleUpward s =
     (\<forall>nd \<in> set (nodes s). nodeVisible nd \<longrightarrow>
        (case myParent nd of None \<Rightarrow> True | Some p \<Rightarrow> visAt s p))"

text \<open>
  Every method of filetreenode.cpp that writes to the tree, the private ones included:
  the operations above, the constructor of a child node, \<open>setNodeVisible\<close>, the two
  methods on the state of a node, the methods on the children of a folder and the
  methods on the model items. Each is called on any node of the store and with any
  argument.
\<close>

datatype treeOperation =
    Operation operation
  | NewChildNode FileMetaData nodeptr
  | SetNodeVisible nodeptr
  | StateCall nodeptr stateCall
  | UpdateFileNodeData nodeptr "FileMetaData list"
  | ClearAllChildren nodeptr
  | InsertFile nodeptr FileMetaData
  | PurgeUnmatchedChildren nodeptr "FileMetaData list"
  | RecomputeModelItems nodeptr
  | PurgeModelItems nodeptr
  | UpdateModelItems nodeptr bool

fun treeStep :: "FileMetaDataOps \<Rightarrow> store \<Rightarrow> treeOperation \<Rightarrow> store option" where
  "treeStep ops s (Operation op) = step ops s op"
| "treeStep ops s (NewChildNode contents parent) = newChildNode s contents parent"
| "treeStep ops s (SetNodeVisible n) = setNodeVisible s n"
| "treeStep ops s (StateCall n c) = runStateCall s (n, c)"
| "treeStep ops s (UpdateFileNodeData n newDataList) = updateFileNodeData s n newDataList"
| "treeStep ops s (ClearAllChildren n) = clearAllChildren s n"
| "treeStep ops s (InsertFile n newData) = insertFile s n newData"
| "treeStep ops s (PurgeUnmatchedChildren n newChildList) =
     purgeUnmatchedChildren s n newChildList"
| "treeStep ops s (RecomputeModelItems n) = recomputeModelItems s n"
| "treeStep ops s (PurgeModelItems n) = purgeModelItems s n"
| "treeStep ops s (UpdateModelItems n folderContentsLoaded) =
     updateModelItems s n folderContentsLoaded"

text \<open>
  The methods whose body can come to a call of \<open>setNodeVisible\<close>: the method itself,
  \<open>setFileBuffer\<close>, \<open>updateFileNodeData\<close>, and the two slots, which call these two
  on a \<open>GOOD\<close> reply only.
\<close>

fun callsSetNodeVisible :: "treeOperation \<Rightarrow> bool" where
  "callsSetNodeVisible (SetNodeVisible n) = True"
| "callsSetNodeVisible (UpdateFileNodeData n newDataList) = True"
| "callsSetNodeVisible (Operation (SetFileBuffer n newFileBuffer)) = True"
| "callsSetNodeVisible (Operation (DeliverLSdata n taskState dataList)) = (taskState = GOOD)"
| "callsSetNodeVisible (Operation (DeliverBuffData n taskState bufferData)) = (taskState = GOOD)"
| "callsSetNodeVisible other = False"

text \<open>
  The parent of \<open>m\<close>, the parent of that node, and so on for at most \<open>k\<close> steps of
  \<open>getParentNode\<close>.
\<close>

fun ancestors :: "store \<Rightarrow> nat \<Rightarrow> nodeptr \<Rightarrow> nodeptr list" where
  "ancestors s 0 m = []"
| "ancestors s (Suc k) m =
     (case fieldAt myParent s m of
        Some (Some p) \<Rightarrow> p # ancestors s k p
      | _ \<Rightarrow> [])"

text \<open>
  The stores that the methods reach from a store without nodes.
\<close>

inductive treeReachable :: "FileMetaDataOps \<Rightarrow> store \<Rightarrow> bool" for ops :: FileMetaDataOps where
  tree_start: "nodes s = [] \<Longrightarrow> treeReachable ops s"
| tree_step: "treeReachable ops s \<Longrightarrow> treeStep ops s op = Some s' \<Longrightarrow> treeReachable ops s'"

text \<open>The listing of the folder "/home": ".", the file "a" and the folder "b".\<close>

definition exListing :: "FileMetaData list" where
  "exListing = [entry ''/home'' ''.'' DIR 0, entry ''/home'' ''a'' FILE 3,
                entry ''/home'' ''b'' DIR 0]"

text \<open>
  The check as the description states it: some entry of the list is named "." and the
  path search from the root of the node's tree, for the containing path of that entry,
  ends at the node.
\<close>

definition claimedControl ::
  "(string \<Rightarrow> string list) \<Rightarrow> store \<Rightarrow> nodeptr \<Rightarrow> FileMetaData list \<Rightarrow> bool" where
  "claimedControl gpl s n l =
     (\<exists>e \<in> set l. fileName e = ''.'' \<and>
        (case findRootNode s n of
           None \<Rightarrow> False
         | Some r \<Rightarrow> getNodeWithName gpl s r (containingPath e) = Some (Some n)))"

text \<open>
  The check of the code: the first entry named "." decides, and its containing path
  must not be empty.
\<close>

definition firstDot :: "FileMetaData list \<Rightarrow> FileMetaData option" where
  "firstDot l = find (\<lambda>e. fileName e = ''.'') l"

definition controlReached ::
  "(string \<Rightarrow> string list) \<Rightarrow> store \<Rightarrow> nodeptr \<Rightarrow> FileMetaData list \<Rightarrow> bool" where
  "controlReached gpl s n l =
     (case firstDot l of
        None \<Rightarrow> False
      | Some e \<Rightarrow>
          containingPath e \<noteq> [] \<and>
          (case findRootNode s n of
             None \<Rightarrow> False
           | Some r \<Rightarrow> getNodeWithName gpl s r (containingPath e) = Some (Some n)))"

text \<open>The members of which a rejected listing must change nothing.\<close>

definition listingOf :: "FileTreeNode \<Rightarrow> nodeptr list \<times> bool" where
  "listingOf nd = (childList nd, folderContentsKnown nd)"

text \<open>
  A listing with two entries named ".": the first names another folder, the second the
  folder "/home".
\<close>

definition exTwoDots :: "FileMetaData list" where
  "exTwoDots = [entry ''/other'' ''.'' DIR 0, entry ''/home'' ''.'' DIR 0,
                entry ''/home'' ''a'' FILE 3]"

text \<open>
  The store after the construction of the root folder "home": the root is shown in the
  item model with a placeholder below it.
\<close>

definition exLoadingRoot :: FileTreeNode where
  "exLoadingRoot = exRootNode\<lparr>myState := FOLDER_KNOWN_CONTENTS_NOT, modelItemList := [0],
                               decendantPlaceholderItem := Some 1\<rparr>"

definition exStore8 :: store where
  "exStore8 = (emptyStore 1)\<lparr>nodes := [exLoadingRoot],
                             myModel := [QRow [0] [QRow [1] []]], nextItem := 2\<rparr>"

text \<open>
  Child \<open>c\<close> matches the listing \<open>l\<close>; child \<open>c\<close> has the full path and the file type
  of the entry \<open>e\<close>.
\<close>

definition matches :: "store \<Rightarrow> FileMetaData list \<Rightarrow> nodeptr \<Rightarrow> bool" where
  "matches s l c = (case fieldAt fileData s c of None \<Rightarrow> False | Some fd \<Rightarrow> matchFound fd l)"

definition sameFile :: "store \<Rightarrow> FileMetaData \<Rightarrow> nodeptr \<Rightarrow> bool" where
  "sameFile s e c =
     (case fieldAt fileData s c of
        None \<Rightarrow> False
      | Some fd \<Rightarrow> fullPath e = fullPath fd \<and> fileType e = fileType fd)"

text \<open>
  The child list of \<open>n\<close> agrees with the listing \<open>l\<close>: every child matches an entry,
  and every entry of \<open>es\<close> other than "." has a child.
\<close>

definition listed :: "store \<Rightarrow> nodeptr \<Rightarrow> FileMetaData list \<Rightarrow> FileMetaData list \<Rightarrow> bool" where
  "listed s n l es =
     ((\<forall>c \<in> set (childrenOf s n). matches s l c) \<and>
      (\<forall>e \<in> set es. fileName e \<noteq> ''.'' \<longrightarrow> (\<exists>c \<in> set (childrenOf s n). sameFile s e c)))"

text \<open>A later listing of "/home" in which only the folder "b" is left.\<close>

definition exListingB :: "FileMetaData list" where
  "exListingB = [entry ''/home'' ''.'' DIR 0, entry ''/home'' ''b'' DIR 0]"

text \<open>
  The listing of "/home" again, with the size of the file "a" changed from 3 to 5.
\<close>

definition exResized :: "FileMetaData list" where
  "exResized = [entry ''/home'' ''.'' DIR 0, entry ''/home'' ''a'' FILE 5,
                entry ''/home'' ''b'' DIR 0]"

section \<open>The state machine of a node\<close>

lemma recomputeNodeState_change:
  "getNode s n = Some nd \<Longrightarrow> myState nd \<noteq> DELETING \<Longrightarrow>
   recomputeNodeState s n = changeNodeState s n (claimedNodeState nd)"
  by (cases "fileType (fileData nd)")
     (simp_all add: recomputeNodeState_def claimedNodeState_def folderState_def fileState_def
        haveLStask_def haveBuffTask_def)

lemma recomputeNodeState_deleting:
  "getNode s n = Some nd \<Longrightarrow> myState nd = DELETING \<Longrightarrow> recomputeNodeState s n = Some s"
  by (simp add: recomputeNodeState_def)

text \<open>
  C1. When \<open>recomputeNodeState\<close> returns on a node that is not in \<open>DELETING\<close>, the
  node is in the state that the table above gives for its file type, its visibility,
  its pending task and its contents or buffer; on a node in \<open>DELETING\<close> the call
  changes nothing in the store.
\<close>

theorem recomputeNodeState_sets_state:
  assumes "getNode s n = Some nd" and "recomputeNodeState s n = Some s'"
  shows "(myState nd = DELETING \<longrightarrow> s' = s) \<and>
         (myState nd \<noteq> DELETING \<longrightarrow> stateAt s' n = Some (claimedNodeState nd))"
proof (cases "myState nd = DELETING")
  case True
  with assms show ?thesis by (simp add: recomputeNodeState_deleting)
next
  case False
  with assms have "changeNodeState s n (claimedNodeState nd) = Some s'"
    by (simp add: recomputeNodeState_change)
  then have "stateAt s' n =
      (if stateAt s n \<noteq> Some DELETING then Some (claimedNodeState nd) else stateAt s n)"
    by (simp add: changeNodeState_stateAt)
  with False assms(1) show ?thesis by (simp add: stateAt_def)
qed

theorem recomputeNodeState_sets_state_witness:
  "getNode exStore1 0 = Some exRootNode \<and> myState exRootNode = INIT \<and>
   (\<exists>s'. recomputeNodeState exStore1 0 = Some s' \<and>
         stateAt s' 0 = Some FOLDER_KNOWN_CONTENTS_NOT)"
proof -
  have a: "getNode exStore1 0 = Some exRootNode"
    by (simp add: exStore1_def emptyStore_def getNode_def)
  have "recomputeNodeState exStore1 0 \<noteq> None" by code_simp
  then obtain s' where b: "recomputeNodeState exStore1 0 = Some s'" by auto
  have c: "myState exRootNode = INIT" by (simp add: exRootNode_def newNode_def)
  have d: "claimedNodeState exRootNode = FOLDER_KNOWN_CONTENTS_NOT"
    by (simp add: claimedNodeState_def folderState_def exRootNode_def newNode_def entry_def)
  from recomputeNodeState_sets_state [OF a b] c d
  have "stateAt s' 0 = Some FOLDER_KNOWN_CONTENTS_NOT" by simp
  with a b c show ?thesis by simp
qed

section \<open>The state DELETING\<close>

lemma changeNodeState_deleting:
  "stateAt s n = Some DELETING \<Longrightarrow> changeNodeState s n newState = Some s"
  by (auto simp: stateAt_def changeNodeState_def)

lemma recomputeNodeState_stateAt_deleting:
  "stateAt s n = Some DELETING \<Longrightarrow> recomputeNodeState s n = Some s"
  by (auto simp: stateAt_def recomputeNodeState_def)

lemma changeNodeState_keeps_deleting:
  "changeNodeState s m newState = Some s' \<Longrightarrow> stateAt s n = Some DELETING \<Longrightarrow>
   stateAt s' n = Some DELETING"
  by (auto simp: changeNodeState_stateAt)

lemma recomputeNodeState_keeps_deleting:
  assumes "recomputeNodeState s m = Some s'" and "stateAt s n = Some DELETING"
  shows "stateAt s' n = Some DELETING"
proof -
  from assms(1) obtain md where md: "getNode s m = Some md"
    by (auto simp: recomputeNodeState_def split: Option.bind_splits)
  show ?thesis
  proof (cases "myState md = DELETING")
    case True
    with assms md show ?thesis by (simp add: recomputeNodeState_deleting)
  next
    case False
    with assms md show ?thesis
      by (simp add: recomputeNodeState_change changeNodeState_keeps_deleting)
  qed
qed

lemma runStateCall_keeps_deleting:
  "runStateCall s c = Some s' \<Longrightarrow> stateAt s n = Some DELETING \<Longrightarrow>
   stateAt s' n = Some DELETING"
  by (cases "(s, c)" rule: runStateCall.cases)
     (auto dest: changeNodeState_keeps_deleting recomputeNodeState_keeps_deleting)

lemma runStateCall_deleting:
  "stateAt s n = Some DELETING \<Longrightarrow> fst c = n \<Longrightarrow> runStateCall s c = Some s"
  by (cases "(s, c)" rule: runStateCall.cases)
     (auto simp: changeNodeState_deleting recomputeNodeState_stateAt_deleting)

text \<open>
  C8. \<open>DELETING\<close> is absorbing. After any sequence of calls of \<open>changeNodeState\<close>
  and \<open>recomputeNodeState\<close>, on whatever nodes, a node that was in \<open>DELETING\<close> is
  still in \<open>DELETING\<close>; and when all the calls are made on that node, every one of
  them returns the store as it was: no state is written, no model item is recomputed
  and the file operator is not notified.
\<close>

theorem deleting_is_absorbing:
  assumes "stateAt s n = Some DELETING"
  shows "(list_all (\<lambda>c. fst c = n) calls \<longrightarrow> runStateCalls s calls = Some s) \<and>
         (\<forall>s'. runStateCalls s calls = Some s' \<longrightarrow> stateAt s' n = Some DELETING)"
  using assms
proof (induction calls arbitrary: s)
  case Nil
  then show ?case by simp
next
  case (Cons c calls)
  show ?case
  proof (intro conjI impI allI)
    assume "list_all (\<lambda>c. fst c = n) (c # calls)"
    then have "fst c = n" and rest: "list_all (\<lambda>c. fst c = n) calls" by simp_all
    with Cons.prems have "runStateCall s c = Some s" by (simp add: runStateCall_deleting)
    with Cons.IH [OF Cons.prems] rest show "runStateCalls s (c # calls) = Some s" by simp
  next
    fix s'
    assume "runStateCalls s (c # calls) = Some s'"
    then obtain s1 where s1: "runStateCall s c = Some s1" and r: "runStateCalls s1 calls = Some s'"
      by (auto split: Option.bind_splits)
    from s1 Cons.prems have "stateAt s1 n = Some DELETING" by (rule runStateCall_keeps_deleting)
    from Cons.IH [OF this] r show "stateAt s' n = Some DELETING" by blast
  qed
qed

theorem deleting_is_absorbing_witness:
  "stateAt exStore2 0 = Some DELETING \<and>
   runStateCalls exStore2 [(0, ChangeNodeState FILE_KNOWN), (0, RecomputeNodeState)]
     = Some exStore2"
proof -
  have a: "stateAt exStore2 0 = Some DELETING"
    by (simp add: stateAt_def getNode_def exStore2_def exDeletingNode_def emptyStore_def)
  have b: "list_all (\<lambda>c. fst c = (0::nat)) [(0, ChangeNodeState FILE_KNOWN), (0, RecomputeNodeState)]"
    by simp
  from deleting_is_absorbing [OF a, of "[(0, ChangeNodeState FILE_KNOWN), (0, RecomputeNodeState)]"] b
  have "runStateCalls exStore2 [(0, ChangeNodeState FILE_KNOWN), (0, RecomputeNodeState)] = Some exStore2"
    by blast
  with a show ?thesis by simp
qed

section \<open>Installing a task\<close>

lemma stateOnly_connections: "stateOnly s s' \<Longrightarrow> connections s' = connections s"
  by (simp add: stateOnly_def)

lemma stateOnly_lsTaskAt: "stateOnly s s' \<Longrightarrow> lsTaskAt s' n = lsTaskAt s n"
  using sameNodes_getNode [OF stateOnly_sameNodes [OF _ noState_fields(7)], of s s' n]
  by (simp add: lsTaskAt_def)

lemma stateOnly_bufferTaskAt: "stateOnly s s' \<Longrightarrow> bufferTaskAt s' n = bufferTaskAt s n"
  using sameNodes_getNode [OF stateOnly_sameNodes [OF _ noState_fields(8)], of s s' n]
  by (simp add: bufferTaskAt_def)

lemma disconnect_gone:
  "(old, n, sl) \<notin> set (disconnect (Some old) n cs)"
  by (simp add: disconnect_def)

lemma recomputeNodeState_stateAt:
  assumes "getNode s n = Some nd" and "recomputeNodeState s n = Some s'"
  shows "stateAt s' n = Some (if myState nd = DELETING then DELETING else claimedNodeState nd)"
proof (cases "myState nd = DELETING")
  case True
  with assms show ?thesis by (simp add: recomputeNodeState_deleting stateAt_def)
next
  case False
  with assms have "changeNodeState s n (claimedNodeState nd) = Some s'"
    by (simp add: recomputeNodeState_change)
  then have "stateAt s' n =
      (if stateAt s n \<noteq> Some DELETING then Some (claimedNodeState nd) else stateAt s n)"
    by (simp add: changeNodeState_stateAt)
  with False assms(1) show ?thesis by (simp add: stateAt_def)
qed

lemma setLStask_installs:
  assumes nd: "getNode s n = Some nd" and dir: "fileType (fileData nd) = DIR"
    and run: "setLStask s n (Some t) = Some s'"
  shows "lsTaskAt s' n = Some (Some t)"
    and "(t, n, SLOT_deliverLSdata) \<in> set (connections s')"
    and "\<forall>old sl. lsTask nd = Some old \<and> old \<noteq> t \<longrightarrow> (old, n, sl) \<notin> set (connections s')"
    and "stateAt s' n = Some (if myState nd = DELETING then DELETING
                              else claimedNodeState (nd\<lparr>lsTask := Some t\<rparr>))"
proof -
  let ?s0 = "putNode (s\<lparr>connections :=
      disconnect (lsTask nd) n (connections s) @ [(t, n, SLOT_deliverLSdata)]\<rparr>) n (nd\<lparr>lsTask := Some t\<rparr>)"
  from nd dir run have r: "recomputeNodeState ?s0 n = Some s'"
    by (simp add: setLStask_def)
  have g: "getNode ?s0 n = Some (nd\<lparr>lsTask := Some t\<rparr>)"
    using nd by (auto simp: getNode_def putNode_def split: if_splits)
  have so: "stateOnly ?s0 s'" using r by (rule recomputeNodeState_stateOnly)
  show "lsTaskAt s' n = Some (Some t)"
    using stateOnly_lsTaskAt [OF so, of n] g by (simp add: lsTaskAt_def)
  have c: "connections s' = disconnect (lsTask nd) n (connections s) @ [(t, n, SLOT_deliverLSdata)]"
    using stateOnly_connections [OF so] by (simp add: putNode_def)
  show "(t, n, SLOT_deliverLSdata) \<in> set (connections s')" by (simp add: c)
  show "\<forall>old sl. lsTask nd = Some old \<and> old \<noteq> t \<longrightarrow> (old, n, sl) \<notin> set (connections s')"
    by (auto simp: c disconnect_def)
  show "stateAt s' n = Some (if myState nd = DELETING then DELETING
                              else claimedNodeState (nd\<lparr>lsTask := Some t\<rparr>))"
    using recomputeNodeState_stateAt [OF g r] by simp
qed

lemma setBuffTask_installs:
  assumes nd: "getNode s n = Some nd" and dir: "fileType (fileData nd) = FILE"
    and run: "setBuffTask s n (Some t) = Some s'"
  shows "bufferTaskAt s' n = Some (Some t)"
    and "(t, n, SLOT_deliverBuffData) \<in> set (connections s')"
    and "\<forall>old sl. bufferTask nd = Some old \<and> old \<noteq> t \<longrightarrow> (old, n, sl) \<notin> set (connections s')"
    and "stateAt s' n = Some (if myState nd = DELETING then DELETING
                              else claimedNodeState (nd\<lparr>bufferTask := Some t\<rparr>))"
proof -
  let ?s0 = "putNode (s\<lparr>connections :=
      disconnect (bufferTask nd) n (connections s) @ [(t, n, SLOT_deliverBuffData)]\<rparr>) n (nd\<lparr>bufferTask := Some t\<rparr>)"
  from nd dir run have r: "recomputeNodeState ?s0 n = Some s'"
    by (simp add: setBuffTask_def)
  have g: "getNode ?s0 n = Some (nd\<lparr>bufferTask := Some t\<rparr>)"
    using nd by (auto simp: getNode_def putNode_def split: if_splits)
  have so: "stateOnly ?s0 s'" using r by (rule recomputeNodeState_stateOnly)
  show "bufferTaskAt s' n = Some (Some t)"
    using stateOnly_bufferTaskAt [OF so, of n] g by (simp add: bufferTaskAt_def)
  have c: "connections s' = disconnect (bufferTask nd) n (connections s) @ [(t, n, SLOT_deliverBuffData)]"
    using stateOnly_connections [OF so] by (simp add: putNode_def)
  show "(t, n, SLOT_deliverBuffData) \<in> set (connections s')" by (simp add: c)
  show "\<forall>old sl. bufferTask nd = Some old \<and> old \<noteq> t \<longrightarrow> (old, n, sl) \<notin> set (connections s')"
    by (auto simp: c disconnect_def)
  show "stateAt s' n = Some (if myState nd = DELETING then DELETING
                              else claimedNodeState (nd\<lparr>bufferTask := Some t\<rparr>))"
    using recomputeNodeState_stateAt [OF g r] by simp
qed

text \<open>
  C6. \<open>setLStask\<close> with a null task, or on a node that is not a folder, returns the
  store unchanged, and so does \<open>setBuffTask\<close> with a null task or on a node that is
  not a file. With a task and a node of the right type, the task is installed and
  connected to the node's slot, no connection from a different previous task to the
  node is left, and the node's state is the recomputed one.
\<close>

theorem setTask_guards:
  assumes "getNode s n = Some nd"
  shows "setLStask s n None = Some s \<and>
         (fileType (fileData nd) \<noteq> DIR \<longrightarrow> setLStask s n newTask = Some s) \<and>
         setBuffTask s n None = Some s \<and>
         (fileType (fileData nd) \<noteq> FILE \<longrightarrow> setBuffTask s n newTask = Some s) \<and>
         (fileType (fileData nd) = DIR \<and> setLStask s n (Some t) = Some s' \<longrightarrow>
            lsTaskAt s' n = Some (Some t) \<and>
            (t, n, SLOT_deliverLSdata) \<in> set (connections s') \<and>
            (\<forall>old sl. lsTask nd = Some old \<and> old \<noteq> t
                \<longrightarrow> (old, n, sl) \<notin> set (connections s')) \<and>
            stateAt s' n = Some (if myState nd = DELETING then DELETING
                                 else claimedNodeState (nd\<lparr>lsTask := Some t\<rparr>))) \<and>
         (fileType (fileData nd) = FILE \<and> setBuffTask s n (Some t) = Some s' \<longrightarrow>
            bufferTaskAt s' n = Some (Some t) \<and>
            (t, n, SLOT_deliverBuffData) \<in> set (connections s') \<and>
            (\<forall>old sl. bufferTask nd = Some old \<and> old \<noteq> t
                \<longrightarrow> (old, n, sl) \<notin> set (connections s')) \<and>
            stateAt s' n = Some (if myState nd = DELETING then DELETING
                                 else claimedNodeState (nd\<lparr>bufferTask := Some t\<rparr>)))"
proof (intro conjI)
  show "setLStask s n None = Some s" by (simp add: setLStask_def)
  show "fileType (fileData nd) \<noteq> DIR \<longrightarrow> setLStask s n newTask = Some s"
    using assms by (cases newTask) (simp_all add: setLStask_def)
  show "setBuffTask s n None = Some s" by (simp add: setBuffTask_def)
  show "fileType (fileData nd) \<noteq> FILE \<longrightarrow> setBuffTask s n newTask = Some s"
    using assms by (cases newTask) (simp_all add: setBuffTask_def)
  show "fileType (fileData nd) = DIR \<and> setLStask s n (Some t) = Some s' \<longrightarrow>
            lsTaskAt s' n = Some (Some t) \<and>
            (t, n, SLOT_deliverLSdata) \<in> set (connections s') \<and>
            (\<forall>old sl. lsTask nd = Some old \<and> old \<noteq> t
                \<longrightarrow> (old, n, sl) \<notin> set (connections s')) \<and>
            stateAt s' n = Some (if myState nd = DELETING then DELETING
                                 else claimedNodeState (nd\<lparr>lsTask := Some t\<rparr>))"
    using setLStask_installs [OF assms] by blast
  show "fileType (fileData nd) = FILE \<and> setBuffTask s n (Some t) = Some s' \<longrightarrow>
            bufferTaskAt s' n = Some (Some t) \<and>
            (t, n, SLOT_deliverBuffData) \<in> set (connections s') \<and>
            (\<forall>old sl. bufferTask nd = Some old \<and> old \<noteq> t
                \<longrightarrow> (old, n, sl) \<notin> set (connections s')) \<and>
            stateAt s' n = Some (if myState nd = DELETING then DELETING
                                 else claimedNodeState (nd\<lparr>bufferTask := Some t\<rparr>))"
    using setBuffTask_installs [OF assms] by blast
qed

theorem setTask_guards_witness:
  "getNode exStore3 0 = Some (exRootNode\<lparr>lsTask := Some 5\<rparr>) \<and>
   fileType (fileData (exRootNode\<lparr>lsTask := Some 5\<rparr>)) = DIR \<and>
   setBuffTask exStore3 0 (Some 9) = Some exStore3 \<and>
   (\<exists>s'. setLStask exStore3 0 (Some 7) = Some s' \<and> lsTaskAt s' 0 = Some (Some 7) \<and>
         (7, 0, SLOT_deliverLSdata) \<in> set (connections s') \<and>
         (5, 0, SLOT_deliverLSdata) \<notin> set (connections s') \<and>
         stateAt s' 0 = Some FOLDER_CONTENTS_LOADING) \<and>
   getNode exStore4 1 = Some exFileNode \<and> fileType (fileData exFileNode) = FILE \<and>
   setLStask exStore4 1 (Some 7) = Some exStore4 \<and>
   (\<exists>s'. setBuffTask exStore4 1 (Some 9) = Some s' \<and> bufferTaskAt s' 1 = Some (Some 9) \<and>
         (9, 1, SLOT_deliverBuffData) \<in> set (connections s') \<and>
         stateAt s' 1 = Some FILE_SPECULATE_LOADING)"
proof -
  let ?nd = "exRootNode\<lparr>lsTask := Some 5\<rparr>"
  have a: "getNode exStore3 0 = Some ?nd"
    by (simp add: exStore3_def emptyStore_def getNode_def)
  have b: "fileType (fileData ?nd) = DIR"
    by (simp add: exRootNode_def newNode_def entry_def)
  have "setLStask exStore3 0 (Some 7) \<noteq> None" by code_simp
  then obtain s1 where c: "setLStask exStore3 0 (Some 7) = Some s1" by auto
  have d: "lsTask ?nd = Some 5" "myState ?nd \<noteq> DELETING"
    "claimedNodeState (?nd\<lparr>lsTask := Some 7\<rparr>) = FOLDER_CONTENTS_LOADING"
    by (simp_all add: exRootNode_def newNode_def entry_def claimedNodeState_def folderState_def)
  note w1 = setTask_guards [OF a, of "Some 9" 7 s1]
  from w1 b have e: "setBuffTask exStore3 0 (Some 9) = Some exStore3" by simp
  from w1 b c d have f: "lsTaskAt s1 0 = Some (Some 7) \<and>
         (7, 0, SLOT_deliverLSdata) \<in> set (connections s1) \<and>
         (5, 0, SLOT_deliverLSdata) \<notin> set (connections s1) \<and>
         stateAt s1 0 = Some FOLDER_CONTENTS_LOADING" by simp
  have a2: "getNode exStore4 1 = Some exFileNode"
    by (simp add: exStore4_def emptyStore_def getNode_def)
  have b2: "fileType (fileData exFileNode) = FILE"
    by (simp add: exFileNode_def newNode_def entry_def)
  have "setBuffTask exStore4 1 (Some 9) \<noteq> None" by code_simp
  then obtain s2 where c2: "setBuffTask exStore4 1 (Some 9) = Some s2" by auto
  have d2: "myState exFileNode \<noteq> DELETING"
    "claimedNodeState (exFileNode\<lparr>bufferTask := Some 9\<rparr>) = FILE_SPECULATE_LOADING"
    by (simp_all add: exFileNode_def newNode_def entry_def claimedNodeState_def fileState_def)
  note w2 = setTask_guards [OF a2, of "Some 7" 9 s2]
  from w2 b2 have e2: "setLStask exStore4 1 (Some 7) = Some exStore4" by simp
  from w2 b2 c2 d2 have f2: "bufferTaskAt s2 1 = Some (Some 9) \<and>
         (9, 1, SLOT_deliverBuffData) \<in> set (connections s2) \<and>
         stateAt s2 1 = Some FILE_SPECULATE_LOADING" by simp
  from a b e c f a2 b2 e2 c2 f2 show ?thesis by blast
qed

section \<open>Delivery of a reply\<close>

lemma sameNodes_fieldAt: "sameNodes f s s' \<Longrightarrow> fieldAt f s' m = fieldAt f s m"
  by (simp add: fieldAt_def sameNodes_getNode)

lemma moreNodes_fieldAt:
  "moreNodes f s s' \<Longrightarrow> fieldAt f s m = Some x \<Longrightarrow> fieldAt f s' m = Some x"
  by (auto simp: fieldAt_def dest: moreNodes_getNode)

lemma fieldAt_putNode:
  "getNode s n = Some nd \<Longrightarrow> fieldAt f (putNode s n nd') n = Some (f nd')"
  by (auto simp: fieldAt_def getNode_def putNode_def split: if_splits)


lemma noListing_tasks: "noListing lsTask" "noListing bufferTask" "noListing fileDataBuffer"
  "noListing myParent" "noListing fileData"
  by (simp_all add: noListing_def noState_fields)

lemma deliverLSdata_clears:
  assumes nd: "getNode s n = Some nd" and run: "deliverLSdata gpl s n st l = Some s'"
  shows "fieldAt lsTask s' n = Some None"
proof -
  let ?s0 = "putNode s n (nd\<lparr>lsTask := None\<rparr>)"
  have z: "fieldAt lsTask ?s0 n = Some None" using nd by (simp add: fieldAt_putNode)
  have "moreNodes lsTask ?s0 s'"
  proof (cases "st = GOOD")
    case True
    with run nd obtain v where v: "verifyControlNode gpl ?s0 n l = Some v"
      and r: "(if \<not> v then recomputeNodeState ?s0 n else updateFileNodeData ?s0 n l) = Some s'"
      by (auto simp: deliverLSdata_def Let_def split: Option.bind_splits)
    show ?thesis
    proof (cases v)
      case True
      with r have "updateFileNodeData ?s0 n l = Some s'" by simp
      then show ?thesis by (rule updateFileNodeData_moreNodes [OF noListing_tasks(1)])
    next
      case False
      with r have "recomputeNodeState ?s0 n = Some s'" by simp
      then show ?thesis
        by (blast intro: sameNodes_more stateOnly_sameNodes recomputeNodeState_stateOnly
                         noState_fields)
    qed
  next
    case False
    with run nd have "changeNodeState ?s0 n DELETING = Some s' \<or> recomputeNodeState ?s0 n = Some s'"
      by (auto simp: deliverLSdata_def Let_def split: if_splits)
    then show ?thesis
      by (blast intro: sameNodes_more stateOnly_sameNodes recomputeNodeState_stateOnly
                       changeNodeState_stateOnly noState_fields)
  qed
  with z show ?thesis by (rule moreNodes_fieldAt [rotated])
qed

lemma deliverBuffData_clears:
  assumes nd: "getNode s n = Some nd" and run: "deliverBuffData s n st b = Some s'"
  shows "fieldAt bufferTask s' n = Some None"
proof -
  let ?s0 = "putNode s n (nd\<lparr>bufferTask := None\<rparr>)"
  have z: "fieldAt bufferTask ?s0 n = Some None" using nd by (simp add: fieldAt_putNode)
  have "sameNodes bufferTask ?s0 s'"
  proof (cases "st = GOOD")
    case True
    with run nd have "setFileBuffer ?s0 n b = Some s'"
      by (cases b) (auto simp: deliverBuffData_def Let_def)
    then show ?thesis
      by (rule setFileBuffer_sameNodes [rotated 3]) (simp_all add: noState_fields)
  next
    case False
    with run nd have "changeNodeState ?s0 n DELETING = Some s' \<or> recomputeNodeState ?s0 n = Some s'"
      by (auto simp: deliverBuffData_def Let_def split: if_splits)
    then show ?thesis
      by (blast intro: stateOnly_sameNodes recomputeNodeState_stateOnly
                       changeNodeState_stateOnly noState_fields)
  qed
  with z show ?thesis by (simp add: sameNodes_fieldAt)
qed

lemma noState_contentsOf: "noState contentsOf"
  unfolding noState_def contentsOf_def by (blast dest: stateFrame_fields)

text \<open>
  C5. Whatever the reply, when \<open>deliverLSdata\<close> (\<open>deliverBuffData\<close>) returns,
  the node's ls task (buffer task) is null. On \<open>FILE_NOT_FOUND\<close> the node is in
  \<open>DELETING\<close>. On a reply that is neither \<open>GOOD\<close> nor \<open>FILE_NOT_FOUND\<close> the
  result is that of \<open>recomputeNodeState\<close> on the store with the task cleared, and
  no node's child list, folder-contents flag or buffer has changed.
\<close>

theorem deliver_reply:
  assumes "getNode s n = Some nd"
  shows "(deliverLSdata gpl s n st l = Some s' \<longrightarrow> fieldAt lsTask s' n = Some None) \<and>
         (deliverBuffData s n st b = Some s' \<longrightarrow> fieldAt bufferTask s' n = Some None) \<and>
         (deliverLSdata gpl s n FILE_NOT_FOUND l = Some s' \<longrightarrow> stateAt s' n = Some DELETING) \<and>
         (deliverBuffData s n FILE_NOT_FOUND b = Some s' \<longrightarrow> stateAt s' n = Some DELETING) \<and>
         (st \<noteq> GOOD \<and> st \<noteq> FILE_NOT_FOUND \<and> deliverLSdata gpl s n st l = Some s' \<longrightarrow>
            recomputeNodeState (putNode s n (nd\<lparr>lsTask := None\<rparr>)) n = Some s' \<and>
            sameNodes contentsOf s s') \<and>
         (st \<noteq> GOOD \<and> st \<noteq> FILE_NOT_FOUND \<and> deliverBuffData s n st b = Some s' \<longrightarrow>
            recomputeNodeState (putNode s n (nd\<lparr>bufferTask := None\<rparr>)) n = Some s' \<and>
            sameNodes contentsOf s s')"
proof (intro conjI impI)
  assume "deliverLSdata gpl s n st l = Some s'"
  with assms show "fieldAt lsTask s' n = Some None" by (rule deliverLSdata_clears)
next
  assume "deliverBuffData s n st b = Some s'"
  with assms show "fieldAt bufferTask s' n = Some None" by (rule deliverBuffData_clears)
next
  assume "deliverLSdata gpl s n FILE_NOT_FOUND l = Some s'"
  with assms have "changeNodeState (putNode s n (nd\<lparr>lsTask := None\<rparr>)) n DELETING = Some s'"
    by (simp add: deliverLSdata_def)
  then show "stateAt s' n = Some DELETING"
    by (simp add: changeNodeState_stateAt)
next
  assume "deliverBuffData s n FILE_NOT_FOUND b = Some s'"
  with assms have "changeNodeState (putNode s n (nd\<lparr>bufferTask := None\<rparr>)) n DELETING = Some s'"
    by (simp add: deliverBuffData_def)
  then show "stateAt s' n = Some DELETING"
    by (simp add: changeNodeState_stateAt)
next
  assume h: "st \<noteq> GOOD \<and> st \<noteq> FILE_NOT_FOUND \<and> deliverLSdata gpl s n st l = Some s'"
  with assms show r: "recomputeNodeState (putNode s n (nd\<lparr>lsTask := None\<rparr>)) n = Some s'"
    by (auto simp: deliverLSdata_def Let_def)
  have "sameNodes contentsOf s (putNode s n (nd\<lparr>lsTask := None\<rparr>))"
    using assms by (simp add: sameNodes_putNode contentsOf_def)
  moreover have "sameNodes contentsOf (putNode s n (nd\<lparr>lsTask := None\<rparr>)) s'"
    using r by (blast intro: stateOnly_sameNodes recomputeNodeState_stateOnly noState_contentsOf)
  ultimately show "sameNodes contentsOf s s'" by (rule sameNodes_trans)
next
  assume h: "st \<noteq> GOOD \<and> st \<noteq> FILE_NOT_FOUND \<and> deliverBuffData s n st b = Some s'"
  with assms show r: "recomputeNodeState (putNode s n (nd\<lparr>bufferTask := None\<rparr>)) n = Some s'"
    by (auto simp: deliverBuffData_def Let_def)
  have "sameNodes contentsOf s (putNode s n (nd\<lparr>bufferTask := None\<rparr>))"
    using assms by (simp add: sameNodes_putNode contentsOf_def)
  moreover have "sameNodes contentsOf (putNode s n (nd\<lparr>bufferTask := None\<rparr>)) s'"
    using r by (blast intro: stateOnly_sameNodes recomputeNodeState_stateOnly noState_contentsOf)
  ultimately show "sameNodes contentsOf s s'" by (rule sameNodes_trans)
qed

theorem deliver_reply_witness:
  "getNode exStore3 0 = Some (exRootNode\<lparr>lsTask := Some 5\<rparr>) \<and>
   (\<exists>s'. deliverLSdata (splitPath []) exStore3 0 OTHER_REQUEST_STATE [] = Some s' \<and>
         fieldAt lsTask s' 0 = Some None \<and> sameNodes contentsOf exStore3 s') \<and>
   (\<exists>s'. deliverLSdata (splitPath []) exStore3 0 FILE_NOT_FOUND [] = Some s' \<and>
         fieldAt lsTask s' 0 = Some None \<and> stateAt s' 0 = Some DELETING) \<and>
   getNode exStore5 1 = Some (exFileNode\<lparr>bufferTask := Some 9\<rparr>) \<and>
   (\<exists>s'. deliverBuffData exStore5 1 OTHER_REQUEST_STATE None = Some s' \<and>
         fieldAt bufferTask s' 1 = Some None \<and> sameNodes contentsOf exStore5 s') \<and>
   (\<exists>s'. deliverBuffData exStore5 1 FILE_NOT_FOUND None = Some s' \<and>
         fieldAt bufferTask s' 1 = Some None \<and> stateAt s' 1 = Some DELETING)"
proof -
  have a: "getNode exStore3 0 = Some (exRootNode\<lparr>lsTask := Some 5\<rparr>)"
    by (simp add: exStore3_def emptyStore_def getNode_def)
  have "deliverLSdata (splitPath []) exStore3 0 OTHER_REQUEST_STATE [] \<noteq> None" by code_simp
  then obtain s1 where
    b: "deliverLSdata (splitPath []) exStore3 0 OTHER_REQUEST_STATE [] = Some s1" by auto
  have "deliverLSdata (splitPath []) exStore3 0 FILE_NOT_FOUND [] \<noteq> None" by code_simp
  then obtain s2 where
    c: "deliverLSdata (splitPath []) exStore3 0 FILE_NOT_FOUND [] = Some s2" by auto
  from deliver_reply [OF a, where gpl = "splitPath []" and st = OTHER_REQUEST_STATE and l = "[]" and s' = s1] b
  have d: "fieldAt lsTask s1 0 = Some None \<and> sameNodes contentsOf exStore3 s1" by simp
  from deliver_reply [OF a, where gpl = "splitPath []" and st = FILE_NOT_FOUND and l = "[]" and s' = s2] c
  have e: "fieldAt lsTask s2 0 = Some None \<and> stateAt s2 0 = Some DELETING" by simp
  have a2: "getNode exStore5 1 = Some (exFileNode\<lparr>bufferTask := Some 9\<rparr>)"
    by (simp add: exStore5_def emptyStore_def getNode_def)
  have "deliverBuffData exStore5 1 OTHER_REQUEST_STATE None \<noteq> None" by code_simp
  then obtain s3 where b2: "deliverBuffData exStore5 1 OTHER_REQUEST_STATE None = Some s3" by auto
  have "deliverBuffData exStore5 1 FILE_NOT_FOUND None \<noteq> None" by code_simp
  then obtain s4 where c2: "deliverBuffData exStore5 1 FILE_NOT_FOUND None = Some s4" by auto
  from deliver_reply [OF a2, where st = OTHER_REQUEST_STATE and b = None and s' = s3] b2
  have d2: "fieldAt bufferTask s3 1 = Some None \<and> sameNodes contentsOf exStore5 s3" by simp
  from deliver_reply [OF a2, where st = FILE_NOT_FOUND and b = None and s' = s4] c2
  have e2: "fieldAt bufferTask s4 1 = Some None \<and> stateAt s4 1 = Some DELETING" by simp
  from a b c d e a2 b2 c2 d2 e2 show ?thesis by blast
qed

section \<open>The transition into DELETING\<close>

lemma cells_dropRow: "cells (dropRow i r) = cells r"
  by (cases r) simp

lemma rowHas_dropRow_self: "i \<notin> set (cells r) \<Longrightarrow> \<not> rowHas i (dropRow i r)"
proof (induction r)
  case (QRow cs subs)
  then show ?case by (auto simp: cells_dropRow)
qed

lemma rowHas_dropRow_mono: "rowHas i (dropRow j r) \<Longrightarrow> rowHas i r"
proof (induction r)
  case (QRow cs subs)
  then show ?case by auto
qed

lemma isValid_removeRowOf_self: "\<not> isValid (removeRowOf i m) i"
  by (auto simp: isValid_def removeRowOf_def cells_dropRow dest: rowHas_dropRow_self)

lemma isValid_removeRowOf_mono: "isValid (removeRowOf j m) i \<Longrightarrow> isValid m i"
  by (auto simp: isValid_def removeRowOf_def dest: rowHas_dropRow_mono)

lemma rowHas_addRow: "rowHas i (addRow p (QRow cs []) r) \<Longrightarrow> rowHas i r \<or> i \<in> set cs"
proof (induction r)
  case (QRow ds subs)
  then show ?case by (auto split: if_splits)
qed

lemma isValid_appendRowUnder:
  "isValid (appendRowUnder p (QRow cs []) m) i \<Longrightarrow> isValid m i \<or> i \<in> set cs"
  by (auto simp: isValid_def appendRowUnder_def dest: rowHas_addRow)

lemma isValid_append_top: "isValid (m @ [QRow cs []]) i \<longleftrightarrow> isValid m i \<or> i \<in> set cs"
  by (auto simp: isValid_def)

lemma onlyFresh_refl: "onlyFresh s s"
  by (simp add: onlyFresh_def)

lemma onlyFresh_trans: "onlyFresh s s1 \<Longrightarrow> onlyFresh s1 s2 \<Longrightarrow> onlyFresh s s2"
  unfolding onlyFresh_def by (meson le_trans)

lemma onlyFresh_stale:
  "onlyFresh s s' \<Longrightarrow> \<not> isValid (myModel s) i \<Longrightarrow> i < nextItem s \<Longrightarrow>
   \<not> isValid (myModel s') i"
  unfolding onlyFresh_def by (meson not_le)

lemma purgeModelItems_onlyFresh: "purgeModelItems s n = Some s' \<Longrightarrow> onlyFresh s s'"
  unfolding purgeModelItems_def
  by (auto simp: onlyFresh_def putNode_def Let_def
           split: Option.bind_splits if_splits option.splits
           dest!: isValid_removeRowOf_mono)

lemma updatePlaceholder_onlyFresh: "updatePlaceholder s n b = Some s' \<Longrightarrow> onlyFresh s s'"
  unfolding updatePlaceholder_def
  by (auto simp: onlyFresh_def putNode_def Let_def
           split: Option.bind_splits if_splits option.splits
           dest!: isValid_removeRowOf_mono isValid_appendRowUnder)

lemma updateModelItems_onlyFresh:
  assumes "updateModelItems s n b = Some s'"
  shows "onlyFresh s s'"
proof -
  from assms obtain nd where nd: "getNode s n = Some nd"
    by (auto simp: updateModelItems_def split: Option.bind_splits)
  let ?row = "[nextItem s ..< nextItem s + columnCount s]"
  let ?s0 = "s\<lparr>nextItem := nextItem s + columnCount s\<rparr>"
  show ?thesis
  proof (cases "modelItemList nd = []")
    case False
    with assms nd have "updatePlaceholder s n b = Some s'"
      by (auto simp: updateModelItems_def split: if_splits)
    then show ?thesis by (rule updatePlaceholder_onlyFresh)
  next
    case True
    show ?thesis
    proof (cases "myParent nd")
      case None
      let ?s1 = "putNode (?s0\<lparr>myModel := myModel ?s0 @ [QRow ?row []]\<rparr>) n
                   (nd\<lparr>modelItemList := ?row\<rparr>)"
      from assms nd True None have "updatePlaceholder ?s1 n b = Some s'"
        by (simp add: updateModelItems_def Let_def)
      then have "onlyFresh ?s1 s'" by (rule updatePlaceholder_onlyFresh)
      moreover have "onlyFresh s ?s1"
        by (auto simp: onlyFresh_def putNode_def isValid_append_top)
      ultimately show ?thesis by (blast intro: onlyFresh_trans)
    next
      case (Some p)
      with assms nd True obtain pn parentIndex where pn: "getNode s p = Some pn"
        and pin: "firstOf (modelItemList pn) = Some parentIndex"
        by (auto simp: updateModelItems_def Let_def split: Option.bind_splits)
      show ?thesis
      proof (cases "isValid (myModel s) parentIndex")
        case False
        with assms nd True Some pn pin
        have "s' = putNode s n (nd\<lparr>decendantPlaceholderItem := None, modelItemList := []\<rparr>)"
          by (simp add: updateModelItems_def Let_def)
        then show ?thesis by (simp add: onlyFresh_def putNode_def)
      next
        case valid: True
        let ?s1 = "putNode (?s0\<lparr>myModel := appendRowUnder parentIndex (QRow ?row []) (myModel ?s0)\<rparr>) n
                   (nd\<lparr>modelItemList := ?row\<rparr>)"
        from assms nd True Some pn pin valid have "updatePlaceholder ?s1 n b = Some s'"
          by (simp add: updateModelItems_def Let_def)
        then have "onlyFresh ?s1 s'" by (rule updatePlaceholder_onlyFresh)
        moreover have "onlyFresh s ?s1"
          by (auto simp: onlyFresh_def putNode_def dest!: isValid_appendRowUnder)
        ultimately show ?thesis by (blast intro: onlyFresh_trans)
      qed
    qed
  qed
qed

lemma recomputeModelItems_onlyFresh:
  "recomputeModelItems s n = Some s' \<Longrightarrow> onlyFresh s s'"
  unfolding recomputeModelItems_def
  by (auto simp: onlyFresh_refl split: Option.bind_splits NodeState.splits
           dest: updateModelItems_onlyFresh purgeModelItems_onlyFresh)

lemma purgeModelItems_other:
  "purgeModelItems s n = Some s' \<Longrightarrow> m \<noteq> n \<Longrightarrow> fieldAt itemsOf s' m = fieldAt itemsOf s m"
  unfolding purgeModelItems_def
  by (auto simp: fieldAt_def getNode_def putNode_def Let_def
           split: Option.bind_splits if_splits option.splits)

lemma updatePlaceholder_other:
  "updatePlaceholder s n b = Some s' \<Longrightarrow> m \<noteq> n \<Longrightarrow> fieldAt itemsOf s' m = fieldAt itemsOf s m"
  unfolding updatePlaceholder_def
  by (auto simp: fieldAt_def getNode_def putNode_def Let_def
           split: Option.bind_splits if_splits option.splits)

lemma updateModelItems_other:
  "updateModelItems s n b = Some s' \<Longrightarrow> m \<noteq> n \<Longrightarrow> fieldAt itemsOf s' m = fieldAt itemsOf s m"
  unfolding updateModelItems_def
  apply (auto simp: Let_def split: Option.bind_splits if_splits option.splits
              dest!: updatePlaceholder_other [where m = m])
     apply (auto simp: fieldAt_def getNode_def putNode_def)
  done

lemma recomputeModelItems_other:
  "recomputeModelItems s n = Some s' \<Longrightarrow> m \<noteq> n \<Longrightarrow> fieldAt itemsOf s' m = fieldAt itemsOf s m"
  unfolding recomputeModelItems_def
  by (auto split: Option.bind_splits NodeState.splits
           dest: updateModelItems_other purgeModelItems_other)

lemma isValid_removeRowOf_twice: "\<not> isValid (removeRowOf j (removeRowOf i m)) i"
  using isValid_removeRowOf_mono isValid_removeRowOf_self by blast

lemma isValid_removeRowOf_stale: "\<not> isValid m i \<Longrightarrow> \<not> isValid (removeRowOf j m) i"
  using isValid_removeRowOf_mono by blast

lemma fieldAt_itemsOf:
  assumes "fieldAt itemsOf s' m = fieldAt itemsOf s m"
  shows "fieldAt modelItemList s' m = fieldAt modelItemList s m"
    and "fieldAt decendantPlaceholderItem s' m = fieldAt decendantPlaceholderItem s m"
  using assms
  by (cases "getNode s m"; cases "getNode s' m"; simp add: fieldAt_def itemsOf_def)+

lemma purgeModelItems_effect:
  assumes "getNode s n = Some nd" and "purgeModelItems s n = Some s'"
  shows "fieldAt modelItemList s' n = Some []"
    and "modelItemList nd \<noteq> [] \<Longrightarrow> fieldAt decendantPlaceholderItem s' n = Some None"
    and "nextItem s' = nextItem s"
    and "firstOf (modelItemList nd) = Some i \<Longrightarrow> \<not> isValid (myModel s') i"
    and "decendantPlaceholderItem nd = Some ph \<Longrightarrow> modelItemList nd \<noteq> [] \<Longrightarrow>
         \<not> isValid (myModel s') ph"
proof -
  show "fieldAt modelItemList s' n = Some []"
    using assms unfolding purgeModelItems_def
    by (auto simp: fieldAt_def getNode_def putNode_def Let_def
             split: Option.bind_splits if_splits option.splits)
  show "modelItemList nd \<noteq> [] \<Longrightarrow> fieldAt decendantPlaceholderItem s' n = Some None"
    using assms unfolding purgeModelItems_def
    by (auto simp: fieldAt_def getNode_def putNode_def Let_def
             split: Option.bind_splits if_splits option.splits)
  show "nextItem s' = nextItem s"
    using assms unfolding purgeModelItems_def
    by (auto simp: putNode_def Let_def split: Option.bind_splits if_splits option.splits)
  show "firstOf (modelItemList nd) = Some i \<Longrightarrow> \<not> isValid (myModel s') i"
    using assms unfolding purgeModelItems_def
    by (auto simp: putNode_def Let_def isValid_removeRowOf_self firstOf_def
             split: Option.bind_splits if_splits option.splits list.splits)
  show "decendantPlaceholderItem nd = Some ph \<Longrightarrow> modelItemList nd \<noteq> [] \<Longrightarrow>
         \<not> isValid (myModel s') ph"
    using assms unfolding purgeModelItems_def
    by (auto simp: putNode_def Let_def isValid_removeRowOf_twice isValid_removeRowOf_stale
             split: Option.bind_splits if_splits option.splits)
qed

lemma fieldAt_notified:
  "fieldAt f (s\<lparr>fileNodesChange := x\<rparr>) n = fieldAt f s n"
  by (simp add: fieldAt_def getNode_def)

lemma purgeModelItems_empty:
  "getNode s n = Some nd \<Longrightarrow> modelItemList nd = [] \<Longrightarrow> purgeModelItems s n = Some s"
  by (simp add: purgeModelItems_def)

lemma recomputeModelItems_deleting:
  "getNode s n = Some nd \<Longrightarrow> myState nd = DELETING \<Longrightarrow>
   recomputeModelItems s n = purgeModelItems s n"
  by (simp add: recomputeModelItems_def)

text \<open>
  C4. When \<open>changeNodeState\<close> moves a node into \<open>DELETING\<close>, the node is queued for
  \<open>deleteLater\<close> and stays allocated, in state \<open>DELETING\<close>; it holds no model item
  any more; and the item that stood first in its row, and the placeholder below it, are
  no longer in the item model. The items it held were created before the call.
\<close>

theorem changeNodeState_to_deleting:
  assumes nd: "getNode s n = Some nd" and alive: "myState nd \<noteq> DELETING"
    and run: "changeNodeState s n DELETING = Some s'"
    and old: "\<forall>i \<in> set (modelItemList nd) \<union> set_option (decendantPlaceholderItem nd).
                i < nextItem s"
  shows "n \<in> set (deleteLater s') \<and> length (nodes s') = length (nodes s) \<and>
         stateAt s' n = Some DELETING \<and>
         fieldAt modelItemList s' n = Some [] \<and>
         (\<forall>i. firstOf (modelItemList nd) = Some i \<longrightarrow> \<not> isValid (myModel s') i) \<and>
         (\<forall>ph. decendantPlaceholderItem nd = Some ph \<and> modelItemList nd \<noteq> [] \<longrightarrow>
               \<not> isValid (myModel s') ph \<and> fieldAt decendantPlaceholderItem s' n = Some None)"
proof -
  let ?nd1 = "nd\<lparr>myState := DELETING\<rparr>"
  let ?s2 = "(putNode s n ?nd1)\<lparr>deleteLater := deleteLater (putNode s n ?nd1) @ [n]\<rparr>"
  from nd alive run obtain s3 s4 where
    s3: "recomputeModelItems ?s2 n = Some s3" and
    s4: "(case myParent nd of None \<Rightarrow> Some s3 | Some p \<Rightarrow> recomputeModelItems s3 p) = Some s4" and
    s': "s' = s4\<lparr>fileNodesChange := fileNodesChange s4 @ [fileData nd]\<rparr>"
    by (auto simp: changeNodeState_def Let_def split: Option.bind_splits if_splits)
  have g2: "getNode ?s2 n = Some ?nd1"
    using nd by (auto simp: getNode_def putNode_def split: if_splits)
  from s3 g2 have p3: "purgeModelItems ?s2 n = Some s3"
    by (simp add: recomputeModelItems_deleting)
  note eff = purgeModelItems_effect [OF g2 p3]
  have m3: "modelOnly ?s2 s3" using s3 by (rule recomputeModelItems_modelOnly)
  have st3: "stateAt s3 n = Some DELETING"
    using modelOnly_stateAt [OF m3, of n] g2 by (simp add: stateAt_def)
  have l3: "fieldAt modelItemList s3 n = Some []" using eff(1) by simp
  have rest: "modelOnly s3 s4 \<and> onlyFresh s3 s4 \<and> fieldAt modelItemList s4 n = Some [] \<and>
      (fieldAt decendantPlaceholderItem s3 n = Some None
         \<longrightarrow> fieldAt decendantPlaceholderItem s4 n = Some None)"
  proof (cases "myParent nd")
    case None
    with s4 l3 show ?thesis by (simp add: modelOnly_refl onlyFresh_refl)
  next
    case (Some p)
    with s4 have r: "recomputeModelItems s3 p = Some s4" by simp
    show ?thesis
    proof (cases "p = n")
      case True
      from l3 st3 obtain nd3 where "getNode s3 n = Some nd3" "modelItemList nd3 = []"
        "myState nd3 = DELETING"
        by (auto simp: fieldAt_def stateAt_def)
      with r True have "s4 = s3"
        by (simp add: recomputeModelItems_deleting purgeModelItems_empty)
      with l3 show ?thesis by (simp add: modelOnly_refl onlyFresh_refl)
    next
      case False
      then have "fieldAt itemsOf s4 n = fieldAt itemsOf s3 n"
        using recomputeModelItems_other [OF r, of n] by simp
      then have "fieldAt modelItemList s4 n = fieldAt modelItemList s3 n"
        "fieldAt decendantPlaceholderItem s4 n = fieldAt decendantPlaceholderItem s3 n"
        by (rule fieldAt_itemsOf)+
      with r l3 show ?thesis
        by (simp add: recomputeModelItems_modelOnly recomputeModelItems_onlyFresh)
    qed
  qed
  have dl: "deleteLater s' = deleteLater s @ [n]"
    using m3 rest by (auto simp: s' modelOnly_def putNode_def)
  have m4: "modelOnly s3 s4" using rest by blast
  have len: "length (nodes s') = length (nodes s)"
    using modelOnly_length [OF m3] modelOnly_length [OF m4] by (simp add: s' putNode_def)
  have st: "stateAt s' n = Some DELETING"
    using run by (simp add: changeNodeState_stateAt)
  have "fieldAt modelItemList s4 n = Some []" using rest by blast
  then have items: "fieldAt modelItemList s' n = Some []"
    by (simp add: s' fieldAt_notified)
  have stale: "\<not> isValid (myModel s3) i \<Longrightarrow> i < nextItem s \<Longrightarrow> \<not> isValid (myModel s') i" for i
    using onlyFresh_stale [of s3 s4 i] rest eff(3) by (simp add: s' putNode_def)
  have first: "\<forall>i. firstOf (modelItemList nd) = Some i \<longrightarrow> \<not> isValid (myModel s') i"
  proof (intro allI impI)
    fix i assume f: "firstOf (modelItemList nd) = Some i"
    then have "i \<in> set (modelItemList nd)" by (auto simp: firstOf_def split: list.splits)
    with old have "i < nextItem s" by blast
    moreover from f have "\<not> isValid (myModel s3) i" using eff(4) [of i] by simp
    ultimately show "\<not> isValid (myModel s') i" using stale by blast
  qed
  have holder: "\<forall>ph. decendantPlaceholderItem nd = Some ph \<and> modelItemList nd \<noteq> [] \<longrightarrow>
               \<not> isValid (myModel s') ph \<and> fieldAt decendantPlaceholderItem s' n = Some None"
  proof (intro allI impI)
    fix ph assume h: "decendantPlaceholderItem nd = Some ph \<and> modelItemList nd \<noteq> []"
    with old have "ph < nextItem s" by auto
    moreover from h have "\<not> isValid (myModel s3) ph" using eff(5) [of ph] by simp
    ultimately have a: "\<not> isValid (myModel s') ph" using stale by blast
    from h have "fieldAt decendantPlaceholderItem s3 n = Some None" using eff(2) by simp
    with rest have "fieldAt decendantPlaceholderItem s4 n = Some None" by blast
    then have "fieldAt decendantPlaceholderItem s' n = Some None"
      by (simp add: s' fieldAt_notified)
    with a show "\<not> isValid (myModel s') ph \<and> fieldAt decendantPlaceholderItem s' n = Some None"
      by blast
  qed
  from dl len st items first holder show ?thesis by simp
qed

theorem changeNodeState_to_deleting_witness:
  "getNode exStore6 1 = Some exFolderNode \<and>
   myState exFolderNode = FOLDER_KNOWN_CONTENTS_NOT \<and>
   modelItemList exFolderNode = [1] \<and> decendantPlaceholderItem exFolderNode = Some 2 \<and>
   nextItem exStore6 = 3 \<and>
   isValid (myModel exStore6) 1 \<and> isValid (myModel exStore6) 2 \<and>
   (\<exists>s'. changeNodeState exStore6 1 DELETING = Some s' \<and>
         1 \<in> set (deleteLater s') \<and> length (nodes s') = 2 \<and> stateAt s' 1 = Some DELETING \<and>
         fieldAt modelItemList s' 1 = Some [] \<and>
         fieldAt decendantPlaceholderItem s' 1 = Some None \<and>
         \<not> isValid (myModel s') 1 \<and> \<not> isValid (myModel s') 2)"
proof -
  have a: "getNode exStore6 1 = Some exFolderNode"
    by (simp add: exStore6_def emptyStore_def getNode_def)
  have b: "myState exFolderNode = FOLDER_KNOWN_CONTENTS_NOT" "modelItemList exFolderNode = [1]"
    "decendantPlaceholderItem exFolderNode = Some 2" "nextItem exStore6 = 3"
    by (simp_all add: exFolderNode_def exStore6_def emptyStore_def)
  have c: "isValid (myModel exStore6) 1" "isValid (myModel exStore6) 2"
    by (simp_all add: exStore6_def emptyStore_def isValid_def)
  have "changeNodeState exStore6 1 DELETING \<noteq> None" by code_simp
  then obtain s' where d: "changeNodeState exStore6 1 DELETING = Some s'" by auto
  have e: "myState exFolderNode \<noteq> DELETING" by (simp add: b)
  have f: "\<forall>i \<in> set (modelItemList exFolderNode) \<union> set_option (decendantPlaceholderItem exFolderNode).
             i < nextItem exStore6"
    by (simp add: b)
  from changeNodeState_to_deleting [OF a e d f] b
  have "1 \<in> set (deleteLater s') \<and>
         length (nodes s') = length (nodes exStore6) \<and> stateAt s' 1 = Some DELETING \<and>
         fieldAt modelItemList s' 1 = Some [] \<and>
         fieldAt decendantPlaceholderItem s' 1 = Some None \<and>
         \<not> isValid (myModel s') 1 \<and> \<not> isValid (myModel s') 2"
    by (simp add: firstOf_def)
  moreover have "length (nodes exStore6) = 2" by (simp add: exStore6_def emptyStore_def)
  ultimately show ?thesis using a b c d by simp
qed

section \<open>Lazy population\<close>

lemma deletingKept_refl: "deletingKept s s"
  by (simp add: deletingKept_def)

lemma deletingKept_trans: "deletingKept s s1 \<Longrightarrow> deletingKept s1 s2 \<Longrightarrow> deletingKept s s2"
  unfolding deletingKept_def by blast

lemma stateAt_putNode_same:
  "getNode s n = Some nd \<Longrightarrow> myState nd' = myState nd \<Longrightarrow> stateAt (putNode s n nd') c = stateAt s c"
  by (auto simp: stateAt_def getNode_def putNode_def nth_list_update split: if_splits)

lemma deletingKept_putNode:
  "getNode s n = Some nd \<Longrightarrow> myState nd' = myState nd \<Longrightarrow> deletingKept s (putNode s n nd')"
  by (simp add: deletingKept_def stateAt_putNode_same) (simp add: putNode_def)

lemma changeNodeState_deleteLater:
  assumes "changeNodeState s n st = Some s'"
  shows "deleteLater s' =
           deleteLater s @ (if st = DELETING \<and> stateAt s n \<noteq> Some DELETING then [n] else [])"
proof -
  obtain nd where nd: "getNode s n = Some nd"
    using assms by (auto simp: changeNodeState_def split: Option.bind_splits)
  show ?thesis
  proof (cases "myState nd = DELETING \<or> st = myState nd")
    case True
    with assms nd show ?thesis
      by (auto simp: changeNodeState_def stateAt_def split: if_splits)
  next
    case False
    define s2 where "s2 = (if st = DELETING
        then (putNode s n (nd\<lparr>myState := st\<rparr>))\<lparr>deleteLater := deleteLater (putNode s n (nd\<lparr>myState := st\<rparr>)) @ [n]\<rparr>
        else putNode s n (nd\<lparr>myState := st\<rparr>))"
    from assms nd False obtain s3 s4 where
      s3: "recomputeModelItems s2 n = Some s3" and
      s4: "(case myParent nd of None \<Rightarrow> Some s3 | Some p \<Rightarrow> recomputeModelItems s3 p) = Some s4" and
      s': "s' = s4\<lparr>fileNodesChange := fileNodesChange s4 @ [fileData nd]\<rparr>"
      by (auto simp: changeNodeState_def Let_def s2_def split: Option.bind_splits if_splits)
    have a: "deleteLater s2 = deleteLater s @ (if st = DELETING then [n] else [])"
      by (simp add: s2_def putNode_def)
    have b: "deleteLater s3 = deleteLater s2"
      using recomputeModelItems_modelOnly [OF s3] by (simp add: modelOnly_def)
    have c: "deleteLater s4 = deleteLater s3"
      using s4 by (auto split: option.splits dest!: recomputeModelItems_modelOnly simp: modelOnly_def)
    from a b c False nd show ?thesis by (simp add: s' stateAt_def)
  qed
qed

lemma changeNodeState_deletingKept:
  "changeNodeState s n st = Some s' \<Longrightarrow> deletingKept s s'"
  by (simp add: deletingKept_def changeNodeState_stateAt changeNodeState_deleteLater)

lemma recomputeNodeState_deletingKept:
  assumes "recomputeNodeState s n = Some s'"
  shows "deletingKept s s'"
proof -
  from assms obtain nd where nd: "getNode s n = Some nd"
    by (auto simp: recomputeNodeState_def split: Option.bind_splits)
  show ?thesis
  proof (cases "myState nd = DELETING")
    case True
    with assms nd show ?thesis by (simp add: recomputeNodeState_deleting deletingKept_refl)
  next
    case False
    with assms nd show ?thesis
      by (simp add: recomputeNodeState_change changeNodeState_deletingKept)
  qed
qed

lemma clearAllChildren_effect:
  "clearAllChildren s n = Some s' \<Longrightarrow>
   deletingKept s s' \<and> childrenOf s' n = [] \<and>
   (\<forall>c \<in> set (childrenOf s n).
      stateAt s' c = Some DELETING \<and> (stateAt s c = Some DELETING \<or> c \<in> set (deleteLater s')))"
proof (induction s n arbitrary: s' rule: clearAllChildren.induct)
  case (1 s n)
  from "1.prems" obtain nd where nd: "getNode s n = Some nd"
    by (blast dest: clearAllChildren_Some_node)
  note unf = clearAllChildren_unfold [OF nd]
  have co: "childrenOf s n = childList nd" using nd by (simp add: childrenOf_def)
  show ?case
  proof (cases "childList nd = []")
    case True
    with "1.prems" co show ?thesis by (simp add: unf deletingKept_refl)
  next
    case False
    let ?s1 = "putNode s n (nd\<lparr>childList := butlast (childList nd)\<rparr>)"
    let ?c = "last (childList nd)"
    from "1.prems" False obtain s2 where
      s2: "changeNodeState ?s1 ?c DELETING = Some s2"
      and r: "clearAllChildren s2 n = Some s'"
      by (auto simp: unf split: Option.bind_splits)
    have k1: "deletingKept s ?s1" using nd by (simp add: deletingKept_putNode)
    have st1: "stateAt ?s1 m = stateAt s m" for m using nd by (simp add: stateAt_putNode_same)
    have dl1: "deleteLater ?s1 = deleteLater s" by (simp add: putNode_def)
    have k2: "deletingKept ?s1 s2" using s2 by (rule changeNodeState_deletingKept)
    have c2: "childrenOf s2 n = butlast (childList nd)"
      using changeNodeState_stateOnly [OF s2] nd
      by (simp add: stateOnly_childrenOf childrenOf_putNode)
    from "1.IH" [OF nd False s2 r] c2
    have k3: "deletingKept s2 s'" and e: "childrenOf s' n = []"
      and ih: "\<forall>c \<in> set (butlast (childList nd)).
        stateAt s' c = Some DELETING \<and> (stateAt s2 c = Some DELETING \<or> c \<in> set (deleteLater s'))"
      by simp_all
    have last2: "stateAt s2 ?c = Some DELETING"
      using s2 by (simp add: changeNodeState_stateAt)
    have q2: "stateAt s m = Some DELETING \<or> m \<in> set (deleteLater s2)"
      if "stateAt s2 m = Some DELETING" and "m \<in> set (childList nd)" for m
      using that changeNodeState_stateAt [OF s2, of m] changeNodeState_deleteLater [OF s2]
      by (auto simp: st1 split: if_splits)
    have "stateAt s' c = Some DELETING \<and> (stateAt s c = Some DELETING \<or> c \<in> set (deleteLater s'))"
      if c: "c \<in> set (childList nd)" for c
    proof (cases "c = ?c")
      case True
      with last2 k3 have a: "stateAt s' c = Some DELETING" by (simp add: deletingKept_def)
      from q2 [OF _ c] True last2 k3 show ?thesis using a by (auto simp: deletingKept_def)
    next
      case False
      with c \<open>childList nd \<noteq> []\<close> have "c \<in> set (butlast (childList nd))"
        by (metis append_butlast_last_id insert_iff list.simps(15) set_append Un_iff empty_iff empty_set)
      with ih have a: "stateAt s' c = Some DELETING"
        and b: "stateAt s2 c = Some DELETING \<or> c \<in> set (deleteLater s')" by blast+
      from b q2 [OF _ c] k3 show ?thesis using a by (auto simp: deletingKept_def)
    qed
    with k1 k2 k3 e co show ?thesis by (auto intro: deletingKept_trans)
  qed
qed

subsection \<open>The number of nodes\<close>

lemma noState_unit: "noState (\<lambda>nd. ())"
  by (simp add: noState_def)

lemma sameCount:
  assumes "sameNodes (\<lambda>nd. ()) s s'"
  shows "length (nodes s') = length (nodes s)"
  using assms by (rule sameNodes_length)

lemma recomputeNodeState_count:
  "recomputeNodeState s n = Some s' \<Longrightarrow> length (nodes s') = length (nodes s)"
  by (blast dest: recomputeNodeState_stateOnly stateOnly_length)


lemma putNode_count: "length (nodes (putNode s n nd)) = length (nodes s)"
  by (simp add: putNode_def)


lemma noState_rootView: "noState rootView"
  unfolding noState_def rootView_def by (auto dest: stateFrame_fields)

lemma newRootNode_result:
  assumes "newRootNode ops s rootFolderName = Some (s', r)"
  shows "r = length (nodes s) \<and> length (nodes s') = Suc (length (nodes s)) \<and>
         fieldAt rootView s' r =
           Some (None, True, DIR, removeDoubleSlashes (''/'' @ rootFolderName), [], False) \<and>
         stateAt s' r = Some FOLDER_KNOWN_CONTENTS_NOT"
proof -
  let ?nd = "(newNode None (rootFileData ops (removeDoubleSlashes (''/'' @ rootFolderName))))
               \<lparr>nodeVisible := True\<rparr>"
  let ?s0 = "s\<lparr>nodes := nodes s @ [?nd]\<rparr>"
  from assms have r: "r = length (nodes s)"
    and run: "recomputeNodeState ?s0 (length (nodes s)) = Some s'"
    by (auto simp: newRootNode_def Let_def split: Option.bind_splits)
  have g: "getNode ?s0 (length (nodes s)) = Some ?nd" by (simp add: getNode_def)
  have so: "stateOnly ?s0 s'" using run by (rule recomputeNodeState_stateOnly)
  have len: "length (nodes s') = Suc (length (nodes s))"
    using stateOnly_length [OF so] by simp
  have "fieldAt rootView s' (length (nodes s)) = fieldAt rootView ?s0 (length (nodes s))"
    using so by (blast intro: sameNodes_fieldAt stateOnly_sameNodes noState_rootView)
  also have "\<dots> = Some (rootView ?nd)" using g by (simp add: fieldAt_def)
  also have "rootView ?nd =
      (None, True, DIR, removeDoubleSlashes (''/'' @ rootFolderName), [], False)"
    by (simp add: rootView_def newNode_def rootFileData_def)
  finally have v: "fieldAt rootView s' (length (nodes s)) =
      Some (None, True, DIR, removeDoubleSlashes (''/'' @ rootFolderName), [], False)" .
  have "claimedNodeState ?nd = FOLDER_KNOWN_CONTENTS_NOT" "myState ?nd \<noteq> DELETING"
    by (simp_all add: claimedNodeState_def folderState_def newNode_def rootFileData_def)
  with recomputeNodeState_stateAt [OF g run]
  have st: "stateAt s' (length (nodes s)) = Some FOLDER_KNOWN_CONTENTS_NOT" by simp
  from r len v st show ?thesis by simp
qed

lemma updateFileNodeData_empty_listing:
  assumes nd: "getNode s n = Some nd" and l: "length l \<le> 1"
    and run: "updateFileNodeData s n l = Some s'"
  shows "childrenOf s' n = [] \<and> fieldAt folderContentsKnown s' n = Some True \<and>
         (\<forall>c \<in> set (childList nd).
            stateAt s' c = Some DELETING \<and>
            (stateAt s c = Some DELETING \<or> c \<in> set (deleteLater s')))"
proof -
  let ?s0 = "putNode s n (nd\<lparr>folderContentsKnown := True\<rparr>)"
  from run nd l obtain s1 where c: "clearAllChildren ?s0 n = Some s1"
    and r: "recomputeNodeState s1 n = Some s'"
    by (auto simp: updateFileNodeData_def Let_def split: Option.bind_splits)
  have co: "childrenOf ?s0 n = childList nd" using nd by (simp add: childrenOf_putNode)
  have st0: "stateAt ?s0 m = stateAt s m" for m using nd by (simp add: stateAt_putNode_same)
  have dl0: "deleteLater ?s0 = deleteLater s" by (simp add: putNode_def)
  from clearAllChildren_effect [OF c] co
  have k1: "deletingKept ?s0 s1" and e1: "childrenOf s1 n = []"
    and d1: "\<forall>c \<in> set (childList nd). stateAt s1 c = Some DELETING \<and>
               (stateAt ?s0 c = Some DELETING \<or> c \<in> set (deleteLater s1))"
    by simp_all
  have k2: "deletingKept s1 s'" using r by (rule recomputeNodeState_deletingKept)
  have so: "stateOnly s1 s'" using r by (rule recomputeNodeState_stateOnly)
  have a: "childrenOf s' n = []" using so e1 by (simp add: stateOnly_childrenOf)
  have "sameNodes folderContentsKnown ?s0 s1"
    using c by (rule clearAllChildren_sameNodes [rotated 2]) (simp_all add: noState_fields)
  moreover have "sameNodes folderContentsKnown s1 s'"
    using so by (rule stateOnly_sameNodes) (rule noState_fields)
  ultimately have "fieldAt folderContentsKnown s' n = fieldAt folderContentsKnown ?s0 n"
    by (blast intro: sameNodes_fieldAt sameNodes_trans)
  then have b: "fieldAt folderContentsKnown s' n = Some True"
    using nd by (simp add: fieldAt_putNode)
  from d1 k2 have "\<forall>c \<in> set (childList nd). stateAt s' c = Some DELETING \<and>
               (stateAt s c = Some DELETING \<or> c \<in> set (deleteLater s'))"
    by (auto simp: deletingKept_def st0)
  with a b show ?thesis by simp
qed



section \<open>Visibility\<close>

lemma visGrows_refl: "visGrows s s"
  unfolding visGrows_def using moreNodes_refl by blast

lemma moreNodes_fieldAt_eq:
  "moreNodes f s s' \<Longrightarrow> m < length (nodes s) \<Longrightarrow> fieldAt f s' m = fieldAt f s m"
  using moreNodes_getNode [of f s s' m] by (auto simp: fieldAt_def getNode_def)

lemma visGrows_trans:
  assumes a: "visGrows s s1" and b: "visGrows s1 s2"
  shows "visGrows s s2"
proof -
  have par: "moreNodes myParent s s2"
    using a b by (auto simp: visGrows_def intro: moreNodes_trans)
  have mono: "\<forall>m. visAt s m \<longrightarrow> visAt s2 m"
    using a b by (simp add: visGrows_def)
  have new: "visAt s2 p" if h: "visAt s2 m" "\<not> visAt s m" "fieldAt myParent s2 m = Some (Some p)"
    for m p
  proof (cases "visAt s1 m")
    case False
    with b h show ?thesis unfolding visGrows_def by blast
  next
    case True
    then have "m < length (nodes s1)"
      by (auto simp: visAt_def fieldAt_def getNode_def split: if_splits)
    moreover from b have "moreNodes myParent s1 s2" by (simp add: visGrows_def)
    ultimately have "fieldAt myParent s1 m = Some (Some p)"
      using h(3) by (simp add: moreNodes_fieldAt_eq)
    with a True h(2) have "visAt s1 p" unfolding visGrows_def by blast
    with b show ?thesis by (simp add: visGrows_def)
  qed
  from par mono new show ?thesis unfolding visGrows_def by blast
qed

lemma visGrows_same:
  assumes "sameNodes myParent s s'" and "sameNodes nodeVisible s s'"
  shows "visGrows s s'"
proof -
  have "visAt s' m = visAt s m" for m
    using sameNodes_fieldAt [OF assms(2), of m] by (simp add: visAt_def)
  moreover have "moreNodes myParent s s'" using assms(1) by (rule sameNodes_more)
  ultimately show ?thesis unfolding visGrows_def by blast
qed

lemma visGrows_stateOnly: "stateOnly s s' \<Longrightarrow> visGrows s s'"
  by (blast intro: visGrows_same stateOnly_sameNodes noState_fields)

lemma visGrows_putNode:
  "getNode s n = Some nd \<Longrightarrow> myParent nd' = myParent nd \<Longrightarrow> nodeVisible nd' = nodeVisible nd
   \<Longrightarrow> visGrows s (putNode s n nd')"
  by (simp add: visGrows_same sameNodes_putNode)

lemma visibleUpward_iff:
  "visibleUpward s \<longleftrightarrow>
     (\<forall>m p. visAt s m \<and> fieldAt myParent s m = Some (Some p) \<longrightarrow> visAt s p)"
proof
  assume inv: "visibleUpward s"
  show "\<forall>m p. visAt s m \<and> fieldAt myParent s m = Some (Some p) \<longrightarrow> visAt s p"
  proof (intro allI impI)
    fix m p
    assume h: "visAt s m \<and> fieldAt myParent s m = Some (Some p)"
    then have m: "m < length (nodes s)" and v: "nodeVisible (nodes s ! m)"
      and q: "myParent (nodes s ! m) = Some p"
      by (auto simp: visAt_def fieldAt_def getNode_def split: if_splits)
    from m have "nodes s ! m \<in> set (nodes s)" by simp
    with inv v q show "visAt s p" unfolding visibleUpward_def by force
  qed
next
  assume r: "\<forall>m p. visAt s m \<and> fieldAt myParent s m = Some (Some p) \<longrightarrow> visAt s p"
  show "visibleUpward s"
    unfolding visibleUpward_def
  proof (intro ballI impI)
    fix nd
    assume "nd \<in> set (nodes s)" and v: "nodeVisible nd"
    then obtain m where m: "m < length (nodes s)" and nd: "nodes s ! m = nd"
      by (auto simp: in_set_conv_nth)
    show "case myParent nd of None \<Rightarrow> True | Some p \<Rightarrow> visAt s p"
    proof (cases "myParent nd")
      case None
      then show ?thesis by simp
    next
      case (Some p)
      from m nd v Some have "visAt s m \<and> fieldAt myParent s m = Some (Some p)"
        by (simp add: visAt_def fieldAt_def getNode_def)
      with r have "visAt s p" by blast
      with Some show ?thesis by simp
    qed
  qed
qed

lemma visGrows_visibleUpward:
  assumes inv: "visibleUpward s" and g: "visGrows s s'"
  shows "visibleUpward s'"
  unfolding visibleUpward_iff
proof (intro allI impI)
  fix m p
  assume h: "visAt s' m \<and> fieldAt myParent s' m = Some (Some p)"
  show "visAt s' p"
  proof (cases "visAt s m")
    case False
    with g h show ?thesis unfolding visGrows_def by blast
  next
    case True
    then have "m < length (nodes s)"
      by (auto simp: visAt_def fieldAt_def getNode_def split: if_splits)
    moreover from g have "moreNodes myParent s s'" by (simp add: visGrows_def)
    ultimately have "fieldAt myParent s m = Some (Some p)"
      using h by (simp add: moreNodes_fieldAt_eq)
    with inv True have "visAt s p" unfolding visibleUpward_iff by blast
    with g show ?thesis by (simp add: visGrows_def)
  qed
qed

lemma visAt_putNode_visible:
  "getNode s n = Some nd \<Longrightarrow>
   visAt (putNode s n (nd\<lparr>nodeVisible := True\<rparr>)) m \<longleftrightarrow> visAt s m \<or> m = n"
  by (auto simp: visAt_def fieldAt_def getNode_def putNode_def nth_list_update split: if_splits)

lemma setNodeVisible_visGrows:
  "setNodeVisible s n = Some s' \<Longrightarrow> visGrows s s' \<and> visAt s' n"
proof (induction s n arbitrary: s' rule: setNodeVisible.induct)
  case (1 s n)
  from "1.prems" obtain nd where nd: "getNode s n = Some nd"
    by (blast dest: setNodeVisible_Some_node)
  note unf = setNodeVisible_unfold [OF nd]
  show ?case
  proof (cases "nodeVisible nd")
    case True
    with "1.prems" nd show ?thesis
      by (simp add: unf visGrows_refl visAt_def fieldAt_def)
  next
    case False
    let ?s1 = "putNode s n (nd\<lparr>nodeVisible := True\<rparr>)"
    have v1: "visAt ?s1 m \<longleftrightarrow> visAt s m \<or> m = n" for m
      using nd by (rule visAt_putNode_visible)
    have p1: "sameNodes myParent s ?s1" using nd by (simp add: sameNodes_putNode)
    have par: "fieldAt myParent s n = Some (myParent nd)" using nd by (simp add: fieldAt_def)
    have nlen: "n < length (nodes s)" using nd by (auto simp: getNode_def split: if_splits)
    show ?thesis
    proof (cases "myParent nd")
      case None
      with "1.prems" False have r: "recomputeNodeState ?s1 n = Some s'"
        by (simp add: unf)
      then have g: "visGrows ?s1 s'"
        by (blast intro: visGrows_stateOnly recomputeNodeState_stateOnly)
      have pp: "moreNodes myParent s s'"
        using p1 g by (auto simp: visGrows_def intro: moreNodes_trans sameNodes_more)
      have mono: "\<forall>m. visAt s m \<longrightarrow> visAt s' m" using g v1 by (simp add: visGrows_def)
      have vn: "visAt s' n" using g v1 by (simp add: visGrows_def)
      have pn: "fieldAt myParent s' n = Some None"
        using moreNodes_fieldAt_eq [OF pp nlen] par None by simp
      have new: "visAt s' p" if h: "visAt s' m" "\<not> visAt s m" "fieldAt myParent s' m = Some (Some p)"
        for m p
      proof (cases "visAt ?s1 m")
        case True
        with h(2) v1 have "m = n" by simp
        with pn h(3) show ?thesis by simp
      next
        case False
        with g h show ?thesis unfolding visGrows_def by blast
      qed
      from pp mono new vn show ?thesis unfolding visGrows_def by blast
    next
      case (Some q)
      with "1.prems" False obtain s2 where
        s2: "setNodeVisible ?s1 q = Some s2" and r: "recomputeNodeState s2 n = Some s'"
        by (auto simp: unf split: Option.bind_splits)
      from "1.IH" [OF nd False Some s2] have g12: "visGrows ?s1 s2" and vq: "visAt s2 q"
        by simp_all
      have g2: "visGrows s2 s'"
        using r by (blast intro: visGrows_stateOnly recomputeNodeState_stateOnly)
      have g: "visGrows ?s1 s'" using g12 g2 by (rule visGrows_trans)
      have pp: "moreNodes myParent s s'"
        using p1 g by (auto simp: visGrows_def intro: moreNodes_trans sameNodes_more)
      have mono: "\<forall>m. visAt s m \<longrightarrow> visAt s' m" using g v1 by (simp add: visGrows_def)
      have vn: "visAt s' n" using g v1 by (simp add: visGrows_def)
      have vq': "visAt s' q" using g2 vq by (simp add: visGrows_def)
      have pn: "fieldAt myParent s' n = Some (Some q)"
        using moreNodes_fieldAt_eq [OF pp nlen] par Some by simp
      have new: "visAt s' p" if h: "visAt s' m" "\<not> visAt s m" "fieldAt myParent s' m = Some (Some p)"
        for m p
      proof (cases "visAt ?s1 m")
        case True
        with h(2) v1 have "m = n" by simp
        with pn h(3) vq' show ?thesis by simp
      next
        case False
        with g h show ?thesis unfolding visGrows_def by blast
      qed
      from pp mono new vn show ?thesis unfolding visGrows_def by blast
    qed
  qed
qed

lemma setNodesVisible_visGrows:
  "setNodesVisible s cs = Some s' \<Longrightarrow> visGrows s s' \<and> (\<forall>c \<in> set cs. visAt s' c)"
proof (induction cs arbitrary: s)
  case Nil
  then show ?case by (simp add: visGrows_refl)
next
  case (Cons c cs)
  then obtain s1 where a: "setNodeVisible s c = Some s1" and b: "setNodesVisible s1 cs = Some s'"
    by (auto split: Option.bind_splits)
  from setNodeVisible_visGrows [OF a] have g1: "visGrows s s1" and vc: "visAt s1 c" by simp_all
  from Cons.IH [OF b] have g2: "visGrows s1 s'" and rest: "\<forall>c \<in> set cs. visAt s' c" by simp_all
  from g2 vc have "visAt s' c" by (simp add: visGrows_def)
  with g1 g2 rest show ?case by (auto intro: visGrows_trans)
qed

lemma noChild_fields:
  "myParent (nd\<lparr>childList := cs\<rparr>) = myParent nd"
  "nodeVisible (nd\<lparr>childList := cs\<rparr>) = nodeVisible nd"
  by simp_all

lemma clearAllChildren_visGrows: "clearAllChildren s n = Some s' \<Longrightarrow> visGrows s s'"
  by (rule visGrows_same)
     (erule clearAllChildren_sameNodes [rotated 2], simp_all add: noState_fields)+

lemma purgeUnmatchedChildren_visGrows:
  "purgeUnmatchedChildren s n l = Some s' \<Longrightarrow> visGrows s s'"
  by (rule visGrows_same)
     (erule purgeUnmatchedChildren_sameNodes [rotated 2], simp_all add: noState_fields)+

lemma visGrows_new_invisible:
  assumes par: "moreNodes myParent s s'" and vis: "moreNodes nodeVisible s s'"
    and new: "\<forall>m. visAt s' m \<longrightarrow> m < length (nodes s)"
  shows "visGrows s s'"
proof -
  have same: "visAt s' m = visAt s m" if "m < length (nodes s)" for m
    using moreNodes_fieldAt_eq [OF vis that] by (simp add: visAt_def)
  have old: "m < length (nodes s)" if "visAt s m" for m
    using that by (auto simp: visAt_def fieldAt_def getNode_def split: if_splits)
  from par same old new show ?thesis unfolding visGrows_def by blast
qed

lemma newChildNode_visGrows:
  assumes "newChildNode s contents parent = Some s'"
  shows "visGrows s s'"
proof -
  from assms obtain pn where pn: "getNode s parent = Some pn"
    by (auto simp: newChildNode_def split: Option.bind_splits)
  let ?s1 = "s\<lparr>nodes := nodes s @ [newNode (Some parent) contents]\<rparr>"
  let ?s2 = "putNode ?s1 parent (pn\<lparr>childList := childList pn @ [length (nodes s)]\<rparr>)"
  from assms pn have r: "recomputeNodeState ?s2 (length (nodes s)) = Some s'"
    by (simp add: newChildNode_def Let_def)
  have plen: "parent < length (nodes s)"
    using pn by (auto simp: getNode_def split: if_splits)
  have v2: "visAt ?s2 m \<longrightarrow> m < length (nodes s)" for m
    using plen
    by (auto simp: visAt_def fieldAt_def getNode_def putNode_def nth_list_update nth_append
                   newNode_def split: if_splits)
  have "sameNodes nodeVisible ?s2 s'"
    using r by (blast intro: stateOnly_sameNodes recomputeNodeState_stateOnly noState_fields)
  then have "visAt s' m = visAt ?s2 m" for m
    using sameNodes_fieldAt [of nodeVisible ?s2 s' m] by (simp add: visAt_def)
  with v2 have new: "\<forall>m. visAt s' m \<longrightarrow> m < length (nodes s)" by blast
  have "moreNodes myParent s s'" "moreNodes nodeVisible s s'"
    using assms by (rule newChildNode_moreNodes(1) [rotated 2], simp_all add: noState_fields)+
  with new show ?thesis by (blast intro: visGrows_new_invisible)
qed

lemma insertFile_visGrows: "insertFile s n e = Some s' \<Longrightarrow> visGrows s s'"
  by (auto simp: insertFile_def visGrows_refl split: if_splits Option.bind_splits
           intro: newChildNode_visGrows)

lemma insertFiles_visGrows: "insertFiles s n es = Some s' \<Longrightarrow> visGrows s s'"
proof (induction es arbitrary: s)
  case Nil
  then show ?case by (simp add: visGrows_refl)
next
  case (Cons e es)
  then obtain s1 where a: "insertFile s n e = Some s1" and b: "insertFiles s1 n es = Some s'"
    by (auto split: Option.bind_splits)
  from a have "visGrows s s1" by (rule insertFile_visGrows)
  moreover from b have "visGrows s1 s'" by (rule Cons.IH)
  ultimately show ?case by (rule visGrows_trans)
qed

lemma recomputeNodeState_visGrows: "recomputeNodeState s n = Some s' \<Longrightarrow> visGrows s s'"
  by (blast intro: visGrows_stateOnly recomputeNodeState_stateOnly)

lemma changeNodeState_visGrows: "changeNodeState s n st = Some s' \<Longrightarrow> visGrows s s'"
  by (blast intro: visGrows_stateOnly changeNodeState_stateOnly)

lemma updateFileNodeData_visGrows:
  assumes "updateFileNodeData s n l = Some s'"
  shows "visGrows s s'"
proof -
  from assms obtain nd where nd: "getNode s n = Some nd"
    by (auto simp: updateFileNodeData_def split: Option.bind_splits)
  let ?s0 = "putNode s n (nd\<lparr>folderContentsKnown := True\<rparr>)"
  have a: "visGrows s ?s0" using nd by (simp add: visGrows_putNode)
  show ?thesis
  proof (cases "length l \<le> 1")
    case True
    with assms nd obtain s1 where c: "clearAllChildren ?s0 n = Some s1"
      and r: "recomputeNodeState s1 n = Some s'"
      by (auto simp: updateFileNodeData_def Let_def split: Option.bind_splits)
    from a clearAllChildren_visGrows [OF c] recomputeNodeState_visGrows [OF r]
    show ?thesis by (blast intro: visGrows_trans)
  next
    case False
    with assms nd obtain s1 s2 nd2 s3 where p: "purgeUnmatchedChildren ?s0 n l = Some s1"
      and i: "insertFiles s1 n l = Some s2" and nd2: "getNode s2 n = Some nd2"
      and v: "setNodesVisible s2 (childList nd2) = Some s3"
      and r: "recomputeNodeState s3 n = Some s'"
      by (auto simp: updateFileNodeData_def Let_def split: Option.bind_splits)
    from setNodesVisible_visGrows [OF v] have "visGrows s2 s3" by simp
    with a purgeUnmatchedChildren_visGrows [OF p] insertFiles_visGrows [OF i]
      recomputeNodeState_visGrows [OF r]
    show ?thesis by (blast intro: visGrows_trans)
  qed
qed

lemma setFileBuffer_visGrows:
  assumes "setFileBuffer s n b = Some s'"
  shows "visGrows s s'"
proof -
  from assms obtain nd s1 where nd: "getNode s n = Some nd"
    and v: "setNodeVisible (putNode s n (nd\<lparr>fileDataBuffer := b\<rparr>)) n = Some s1"
    and r: "recomputeNodeState s1 n = Some s'"
    by (auto simp: setFileBuffer_def split: Option.bind_splits)
  have "visGrows s (putNode s n (nd\<lparr>fileDataBuffer := b\<rparr>))"
    using nd by (simp add: visGrows_putNode)
  moreover from setNodeVisible_visGrows [OF v]
  have "visGrows (putNode s n (nd\<lparr>fileDataBuffer := b\<rparr>)) s1" by simp
  moreover have "visGrows s1 s'" using r by (rule recomputeNodeState_visGrows)
  ultimately show ?thesis by (blast intro: visGrows_trans)
qed

lemma visGrows_connections: "visGrows s (s\<lparr>connections := cs\<rparr>)"
  by (rule visGrows_same) (simp_all add: sameNodes_def)

lemma getNode_connections: "getNode (s\<lparr>connections := cs\<rparr>) n = getNode s n"
  by (simp add: getNode_def)

lemma setLStask_visGrows:
  assumes "setLStask s n t = Some s'"
  shows "visGrows s s'"
proof (cases t)
  case None
  with assms show ?thesis by (simp add: setLStask_def visGrows_refl)
next
  case (Some k)
  with assms obtain nd where nd: "getNode s n = Some nd"
    by (auto simp: setLStask_def split: Option.bind_splits)
  show ?thesis
  proof (cases "fileType (fileData nd) = DIR")
    case False
    with assms Some nd show ?thesis by (simp add: setLStask_def visGrows_refl)
  next
    case True
    let ?c = "s\<lparr>connections := disconnect (lsTask nd) n (connections s) @ [(k, n, SLOT_deliverLSdata)]\<rparr>"
    from assms Some nd True
    have r: "recomputeNodeState (putNode ?c n (nd\<lparr>lsTask := Some k\<rparr>)) n = Some s'"
      by (simp add: setLStask_def)
    have "visGrows s ?c" by (rule visGrows_connections)
    moreover have "visGrows ?c (putNode ?c n (nd\<lparr>lsTask := Some k\<rparr>))"
      using nd by (simp add: visGrows_putNode getNode_connections)
    moreover have "visGrows (putNode ?c n (nd\<lparr>lsTask := Some k\<rparr>)) s'"
      using r by (rule recomputeNodeState_visGrows)
    ultimately show ?thesis by (blast intro: visGrows_trans)
  qed
qed

lemma setBuffTask_visGrows:
  assumes "setBuffTask s n t = Some s'"
  shows "visGrows s s'"
proof (cases t)
  case None
  with assms show ?thesis by (simp add: setBuffTask_def visGrows_refl)
next
  case (Some k)
  with assms obtain nd where nd: "getNode s n = Some nd"
    by (auto simp: setBuffTask_def split: Option.bind_splits)
  show ?thesis
  proof (cases "fileType (fileData nd) = FILE")
    case False
    with assms Some nd show ?thesis by (simp add: setBuffTask_def visGrows_refl)
  next
    case True
    let ?c = "s\<lparr>connections := disconnect (bufferTask nd) n (connections s) @ [(k, n, SLOT_deliverBuffData)]\<rparr>"
    from assms Some nd True
    have r: "recomputeNodeState (putNode ?c n (nd\<lparr>bufferTask := Some k\<rparr>)) n = Some s'"
      by (simp add: setBuffTask_def)
    have "visGrows s ?c" by (rule visGrows_connections)
    moreover have "visGrows ?c (putNode ?c n (nd\<lparr>bufferTask := Some k\<rparr>))"
      using nd by (simp add: visGrows_putNode getNode_connections)
    moreover have "visGrows (putNode ?c n (nd\<lparr>bufferTask := Some k\<rparr>)) s'"
      using r by (rule recomputeNodeState_visGrows)
    ultimately show ?thesis by (blast intro: visGrows_trans)
  qed
qed

lemma deliverLSdata_visGrows:
  assumes "deliverLSdata gpl s n st l = Some s'"
  shows "visGrows s s'"
proof -
  from assms obtain nd where nd: "getNode s n = Some nd"
    by (auto simp: deliverLSdata_def split: Option.bind_splits)
  let ?s0 = "putNode s n (nd\<lparr>lsTask := None\<rparr>)"
  have a: "visGrows s ?s0" using nd by (simp add: visGrows_putNode)
  from assms nd have "updateFileNodeData ?s0 n l = Some s' \<or>
      changeNodeState ?s0 n DELETING = Some s' \<or> recomputeNodeState ?s0 n = Some s'"
    by (auto simp: deliverLSdata_def Let_def split: Option.bind_splits if_splits)
  then have "visGrows ?s0 s'"
    by (blast intro: updateFileNodeData_visGrows changeNodeState_visGrows
                     recomputeNodeState_visGrows)
  with a show ?thesis by (rule visGrows_trans)
qed

lemma deliverBuffData_visGrows:
  assumes "deliverBuffData s n st b = Some s'"
  shows "visGrows s s'"
proof -
  from assms obtain nd where nd: "getNode s n = Some nd"
    by (auto simp: deliverBuffData_def split: Option.bind_splits)
  let ?s0 = "putNode s n (nd\<lparr>bufferTask := None\<rparr>)"
  have a: "visGrows s ?s0" using nd by (simp add: visGrows_putNode)
  from assms nd have "setFileBuffer ?s0 n b = Some s' \<or>
      changeNodeState ?s0 n DELETING = Some s' \<or> recomputeNodeState ?s0 n = Some s'"
    by (cases b) (auto simp: deliverBuffData_def Let_def split: if_splits)
  then have "visGrows ?s0 s'"
    by (blast intro: setFileBuffer_visGrows changeNodeState_visGrows
                     recomputeNodeState_visGrows)
  with a show ?thesis by (rule visGrows_trans)
qed

lemma deleteFolderContentsData_visGrows:
  assumes "deleteFolderContentsData s n = Some s'"
  shows "visGrows s s'"
proof -
  from assms obtain nd where nd: "getNode s n = Some nd"
    and c: "clearAllChildren (putNode s n (nd\<lparr>folderContentsKnown := False\<rparr>)) n = Some s'"
    by (auto simp: deleteFolderContentsData_def split: Option.bind_splits)
  have "visGrows s (putNode s n (nd\<lparr>folderContentsKnown := False\<rparr>))"
    using nd by (simp add: visGrows_putNode)
  with clearAllChildren_visGrows [OF c] show ?thesis by (blast intro: visGrows_trans)
qed

lemma newRootNode_visGrows:
  assumes "newRootNode ops s rootFolderName = Some (s', r)"
  shows "visGrows s s'"
proof -
  let ?nd = "(newNode None (rootFileData ops (removeDoubleSlashes (''/'' @ rootFolderName))))
               \<lparr>nodeVisible := True\<rparr>"
  let ?s0 = "s\<lparr>nodes := nodes s @ [?nd]\<rparr>"
  from assms have run: "recomputeNodeState ?s0 (length (nodes s)) = Some s'"
    by (auto simp: newRootNode_def Let_def split: Option.bind_splits)
  have par: "moreNodes myParent s ?s0" by (simp add: moreNodes_def)
  have mono: "\<forall>m. visAt s m \<longrightarrow> visAt ?s0 m"
    by (auto simp: visAt_def fieldAt_def getNode_def nth_append split: if_splits)
  have new: "\<forall>m p. visAt ?s0 m \<and> \<not> visAt s m \<and> fieldAt myParent ?s0 m = Some (Some p)
               \<longrightarrow> visAt ?s0 p"
    by (auto simp: visAt_def fieldAt_def getNode_def nth_append newNode_def split: if_splits)
  from par mono new have "visGrows s ?s0" unfolding visGrows_def by blast
  with recomputeNodeState_visGrows [OF run] show ?thesis by (blast intro: visGrows_trans)
qed

lemma step_visGrows: "step ops s op = Some s' \<Longrightarrow> visGrows s s'"
  by (cases op)
     (auto dest: newRootNode_visGrows deleteFolderContentsData_visGrows setFileBuffer_visGrows
                 setLStask_visGrows setBuffTask_visGrows deliverLSdata_visGrows
                 deliverBuffData_visGrows)

lemma newChildNode_invisible:
  assumes "newChildNode s contents parent = Some s'"
  shows "fieldAt nodeVisible s' (length (nodes s)) = Some False"
proof -
  from assms obtain pn where pn: "getNode s parent = Some pn"
    by (auto simp: newChildNode_def split: Option.bind_splits)
  let ?s1 = "s\<lparr>nodes := nodes s @ [newNode (Some parent) contents]\<rparr>"
  let ?s2 = "putNode ?s1 parent (pn\<lparr>childList := childList pn @ [length (nodes s)]\<rparr>)"
  from assms pn have r: "recomputeNodeState ?s2 (length (nodes s)) = Some s'"
    by (simp add: newChildNode_def Let_def)
  have plen: "parent < length (nodes s)"
    using pn by (auto simp: getNode_def split: if_splits)
  have "fieldAt nodeVisible ?s2 (length (nodes s)) = Some False"
    using plen
    by (auto simp: fieldAt_def getNode_def putNode_def nth_list_update nth_append newNode_def)
  moreover have "sameNodes nodeVisible ?s2 s'"
    using r by (blast intro: stateOnly_sameNodes recomputeNodeState_stateOnly noState_fields)
  ultimately show ?thesis by (simp add: sameNodes_fieldAt)
qed

lemma treeStep_visGrows: "treeStep ops s op = Some s' \<Longrightarrow> visGrows s s'"
proof (cases op)
  case (StateCall n c)
  assume "treeStep ops s op = Some s'"
  with StateCall show ?thesis
    by (cases c) (auto intro: changeNodeState_visGrows recomputeNodeState_visGrows)
qed (auto intro: step_visGrows newChildNode_visGrows updateFileNodeData_visGrows
           clearAllChildren_visGrows insertFile_visGrows purgeUnmatchedChildren_visGrows
           visGrows_stateOnly modelOnly_stateOnly recomputeModelItems_modelOnly
           purgeModelItems_modelOnly updateModelItems_modelOnly
         dest: setNodeVisible_visGrows)

lemma treeReachable_visibleUpward: "treeReachable ops s \<Longrightarrow> visibleUpward s"
proof (induction rule: treeReachable.induct)
  case (tree_start s)
  then show ?case by (simp add: visibleUpward_def)
next
  case (tree_step s op s')
  then show ?case by (blast intro: visGrows_visibleUpward treeStep_visGrows)
qed

lemma ancestors_visible:
  assumes "visibleUpward s"
  shows "visAt s m \<Longrightarrow> a \<in> set (ancestors s k m) \<Longrightarrow> visAt s a"
proof (induction k arbitrary: m)
  case 0
  then show ?case by simp
next
  case (Suc k)
  from Suc.prems(2) have "\<exists>p. fieldAt myParent s m = Some (Some p) \<and>
      (a = p \<or> a \<in> set (ancestors s k p))"
    by (cases "fieldAt myParent s m") (auto split: option.splits)
  then obtain p where p: "fieldAt myParent s m = Some (Some p)"
    and a: "a = p \<or> a \<in> set (ancestors s k p)"
    by blast
  from assms Suc.prems(1) p have "visAt s p" unfolding visibleUpward_iff by blast
  with a Suc.IH show ?case by blast
qed

lemma sameNodes_connections: "sameNodes f s (s\<lparr>connections := cs\<rparr>)"
  by (simp add: sameNodes_def)

lemma recomputeNodeState_sameVisible:
  "recomputeNodeState s n = Some s' \<Longrightarrow> sameNodes nodeVisible s s'"
  by (blast intro: stateOnly_sameNodes recomputeNodeState_stateOnly noState_fields)

lemma changeNodeState_sameVisible:
  "changeNodeState s n st = Some s' \<Longrightarrow> sameNodes nodeVisible s s'"
  by (blast intro: stateOnly_sameNodes changeNodeState_stateOnly noState_fields)

lemma newRootNode_moreVisible:
  assumes "newRootNode ops s rootFolderName = Some (s', r)"
  shows "moreNodes nodeVisible s s'"
proof -
  let ?nd = "(newNode None (rootFileData ops (removeDoubleSlashes (''/'' @ rootFolderName))))
               \<lparr>nodeVisible := True\<rparr>"
  let ?s0 = "s\<lparr>nodes := nodes s @ [?nd]\<rparr>"
  from assms have run: "recomputeNodeState ?s0 (length (nodes s)) = Some s'"
    by (auto simp: newRootNode_def Let_def split: Option.bind_splits)
  have "moreNodes nodeVisible s ?s0" by (simp add: moreNodes_def)
  with recomputeNodeState_sameVisible [OF run] show ?thesis
    by (blast intro: moreNodes_trans sameNodes_more)
qed

lemma setLStask_sameVisible:
  assumes "setLStask s n t = Some s'"
  shows "sameNodes nodeVisible s s'"
proof (cases t)
  case None
  with assms show ?thesis by (simp add: setLStask_def sameNodes_refl)
next
  case (Some k)
  with assms obtain nd where nd: "getNode s n = Some nd"
    by (auto simp: setLStask_def split: Option.bind_splits)
  show ?thesis
  proof (cases "fileType (fileData nd) = DIR")
    case False
    with assms Some nd show ?thesis by (simp add: setLStask_def sameNodes_refl)
  next
    case True
    let ?c = "s\<lparr>connections := disconnect (lsTask nd) n (connections s) @ [(k, n, SLOT_deliverLSdata)]\<rparr>"
    from assms Some nd True
    have r: "recomputeNodeState (putNode ?c n (nd\<lparr>lsTask := Some k\<rparr>)) n = Some s'"
      by (simp add: setLStask_def)
    have "sameNodes nodeVisible s ?c" by (rule sameNodes_connections)
    moreover have "sameNodes nodeVisible ?c (putNode ?c n (nd\<lparr>lsTask := Some k\<rparr>))"
      using nd by (simp add: sameNodes_putNode getNode_connections)
    moreover have "sameNodes nodeVisible (putNode ?c n (nd\<lparr>lsTask := Some k\<rparr>)) s'"
      using r by (rule recomputeNodeState_sameVisible)
    ultimately show ?thesis by (blast intro: sameNodes_trans)
  qed
qed

lemma setBuffTask_sameVisible:
  assumes "setBuffTask s n t = Some s'"
  shows "sameNodes nodeVisible s s'"
proof (cases t)
  case None
  with assms show ?thesis by (simp add: setBuffTask_def sameNodes_refl)
next
  case (Some k)
  with assms obtain nd where nd: "getNode s n = Some nd"
    by (auto simp: setBuffTask_def split: Option.bind_splits)
  show ?thesis
  proof (cases "fileType (fileData nd) = FILE")
    case False
    with assms Some nd show ?thesis by (simp add: setBuffTask_def sameNodes_refl)
  next
    case True
    let ?c = "s\<lparr>connections := disconnect (bufferTask nd) n (connections s) @ [(k, n, SLOT_deliverBuffData)]\<rparr>"
    from assms Some nd True
    have r: "recomputeNodeState (putNode ?c n (nd\<lparr>bufferTask := Some k\<rparr>)) n = Some s'"
      by (simp add: setBuffTask_def)
    have "sameNodes nodeVisible s ?c" by (rule sameNodes_connections)
    moreover have "sameNodes nodeVisible ?c (putNode ?c n (nd\<lparr>bufferTask := Some k\<rparr>))"
      using nd by (simp add: sameNodes_putNode getNode_connections)
    moreover have "sameNodes nodeVisible (putNode ?c n (nd\<lparr>bufferTask := Some k\<rparr>)) s'"
      using r by (rule recomputeNodeState_sameVisible)
    ultimately show ?thesis by (blast intro: sameNodes_trans)
  qed
qed

lemma deliverLSdata_sameVisible:
  assumes "deliverLSdata gpl s n st l = Some s'" and "st \<noteq> GOOD"
  shows "sameNodes nodeVisible s s'"
proof -
  from assms obtain nd where nd: "getNode s n = Some nd"
    by (auto simp: deliverLSdata_def split: Option.bind_splits)
  let ?s0 = "putNode s n (nd\<lparr>lsTask := None\<rparr>)"
  have a: "sameNodes nodeVisible s ?s0" using nd by (simp add: sameNodes_putNode)
  from assms nd have
    "changeNodeState ?s0 n DELETING = Some s' \<or> recomputeNodeState ?s0 n = Some s'"
    by (auto simp: deliverLSdata_def Let_def split: Option.bind_splits if_splits)
  then have "sameNodes nodeVisible ?s0 s'"
    by (blast intro: changeNodeState_sameVisible recomputeNodeState_sameVisible)
  with a show ?thesis by (rule sameNodes_trans)
qed

lemma deliverBuffData_sameVisible:
  assumes "deliverBuffData s n st b = Some s'" and "st \<noteq> GOOD"
  shows "sameNodes nodeVisible s s'"
proof -
  from assms obtain nd where nd: "getNode s n = Some nd"
    by (auto simp: deliverBuffData_def split: Option.bind_splits)
  let ?s0 = "putNode s n (nd\<lparr>bufferTask := None\<rparr>)"
  have a: "sameNodes nodeVisible s ?s0" using nd by (simp add: sameNodes_putNode)
  from assms nd have
    "changeNodeState ?s0 n DELETING = Some s' \<or> recomputeNodeState ?s0 n = Some s'"
    by (auto simp: deliverBuffData_def Let_def split: if_splits)
  then have "sameNodes nodeVisible ?s0 s'"
    by (blast intro: changeNodeState_sameVisible recomputeNodeState_sameVisible)
  with a show ?thesis by (rule sameNodes_trans)
qed

lemma deleteFolderContentsData_sameVisible:
  assumes "deleteFolderContentsData s n = Some s'"
  shows "sameNodes nodeVisible s s'"
proof -
  from assms obtain nd where nd: "getNode s n = Some nd"
    and c: "clearAllChildren (putNode s n (nd\<lparr>folderContentsKnown := False\<rparr>)) n = Some s'"
    by (auto simp: deleteFolderContentsData_def split: Option.bind_splits)
  have "sameNodes nodeVisible s (putNode s n (nd\<lparr>folderContentsKnown := False\<rparr>))"
    using nd by (simp add: sameNodes_putNode)
  moreover have "sameNodes nodeVisible (putNode s n (nd\<lparr>folderContentsKnown := False\<rparr>)) s'"
    using c by (rule clearAllChildren_sameNodes [rotated 2]) (simp_all add: noState_fields)
  ultimately show ?thesis by (rule sameNodes_trans)
qed

lemma step_moreVisible:
  assumes "step ops s op = Some s'" and "\<not> callsSetNodeVisible (Operation op)"
  shows "moreNodes nodeVisible s s'"
  using assms
  by (cases op)
     (auto dest: newRootNode_moreVisible
           intro: sameNodes_more deleteFolderContentsData_sameVisible setLStask_sameVisible
                  setBuffTask_sameVisible deliverLSdata_sameVisible deliverBuffData_sameVisible)

lemma treeStep_moreVisible:
  assumes "treeStep ops s op = Some s'" and "\<not> callsSetNodeVisible op"
  shows "moreNodes nodeVisible s s'"
proof (cases op)
  case (Operation x)
  with assms show ?thesis by (simp add: step_moreVisible)
next
  case (NewChildNode contents parent)
  with assms have "newChildNode s contents parent = Some s'" by simp
  then show ?thesis
    by (rule newChildNode_moreNodes(1) [rotated 2]) (simp_all add: noState_fields)
next
  case (SetNodeVisible n)
  with assms show ?thesis by simp
next
  case (StateCall n c)
  with assms show ?thesis
    by (cases c)
       (auto intro: sameNodes_more changeNodeState_sameVisible recomputeNodeState_sameVisible)
next
  case (UpdateFileNodeData n l)
  with assms show ?thesis by simp
next
  case (ClearAllChildren n)
  with assms have "clearAllChildren s n = Some s'" by simp
  then have "sameNodes nodeVisible s s'"
    by (rule clearAllChildren_sameNodes [rotated 2]) (simp_all add: noState_fields)
  then show ?thesis by (rule sameNodes_more)
next
  case (InsertFile n e)
  with assms have "insertFile s n e = Some s'" by simp
  then show ?thesis
    by (rule insertFile_moreNodes [rotated 2]) (simp_all add: noState_fields)
next
  case (PurgeUnmatchedChildren n l)
  with assms have "purgeUnmatchedChildren s n l = Some s'" by simp
  then have "sameNodes nodeVisible s s'"
    by (rule purgeUnmatchedChildren_sameNodes [rotated 2]) (simp_all add: noState_fields)
  then show ?thesis by (rule sameNodes_more)
next
  case (RecomputeModelItems n)
  with assms have "stateOnly s s'"
    by (auto intro: modelOnly_stateOnly recomputeModelItems_modelOnly)
  then show ?thesis by (blast intro: sameNodes_more stateOnly_sameNodes noState_fields)
next
  case (PurgeModelItems n)
  with assms have "stateOnly s s'"
    by (auto intro: modelOnly_stateOnly purgeModelItems_modelOnly)
  then show ?thesis by (blast intro: sameNodes_more stateOnly_sameNodes noState_fields)
next
  case (UpdateModelItems n b)
  with assms have "stateOnly s s'"
    by (auto intro: modelOnly_stateOnly updateModelItems_modelOnly)
  then show ?thesis by (blast intro: sameNodes_more stateOnly_sameNodes noState_fields)
qed

text \<open>
  C10. In every store that the methods of the file reach from a store without nodes, a
  visible node has no parent or a visible parent, and every method keeps this from any
  store where it holds, the constructor of a child node and \<open>setNodeVisible\<close> among
  them. A root node is constructed visible and a child node invisible. After
  \<open>setNodeVisible\<close> the node and every ancestor of it are visible. A method that
  cannot come to a call of \<open>setNodeVisible\<close> leaves the visibility of every node as
  it was.
\<close>

theorem visibility_upward_closed:
  "(treeReachable ops s \<longrightarrow> visibleUpward s) \<and>
   (visibleUpward s \<and> treeStep ops s op = Some s' \<longrightarrow> visibleUpward s') \<and>
   (newRootNode ops s rootFolderName = Some (s', r) \<longrightarrow> visAt s' r) \<and>
   (newChildNode s contents parent = Some s' \<longrightarrow>
      fieldAt nodeVisible s' (length (nodes s)) = Some False) \<and>
   (visibleUpward s \<and> setNodeVisible s n = Some s' \<longrightarrow>
      visibleUpward s' \<and> visAt s' n \<and> (\<forall>a \<in> set (ancestors s' k n). visAt s' a)) \<and>
   (treeStep ops s op = Some s' \<and> \<not> callsSetNodeVisible op \<longrightarrow>
      (\<forall>m < length (nodes s). fieldAt nodeVisible s' m = fieldAt nodeVisible s m))"
proof -
  have a: "treeReachable ops s \<longrightarrow> visibleUpward s"
    by (blast intro: treeReachable_visibleUpward)
  have b: "visibleUpward s \<and> treeStep ops s op = Some s' \<longrightarrow> visibleUpward s'"
    by (blast intro: visGrows_visibleUpward treeStep_visGrows)
  have c: "newRootNode ops s rootFolderName = Some (s', r) \<longrightarrow> visAt s' r"
  proof
    assume "newRootNode ops s rootFolderName = Some (s', r)"
    from newRootNode_result [OF this]
    have "fieldAt rootView s' r =
        Some (None, True, DIR, removeDoubleSlashes (''/'' @ rootFolderName), [], False)"
      by blast
    then show "visAt s' r"
      by (cases "getNode s' r") (auto simp: fieldAt_def visAt_def rootView_def)
  qed
  have d: "newChildNode s contents parent = Some s' \<longrightarrow>
      fieldAt nodeVisible s' (length (nodes s)) = Some False"
    by (blast intro: newChildNode_invisible)
  have e: "visibleUpward s \<and> setNodeVisible s n = Some s' \<longrightarrow>
      visibleUpward s' \<and> visAt s' n \<and> (\<forall>a \<in> set (ancestors s' k n). visAt s' a)"
  proof
    assume h: "visibleUpward s \<and> setNodeVisible s n = Some s'"
    with setNodeVisible_visGrows [of s n s'] have g: "visGrows s s'" and v: "visAt s' n"
      by simp_all
    from h g have u: "visibleUpward s'" by (blast intro: visGrows_visibleUpward)
    from u v have "\<forall>a \<in> set (ancestors s' k n). visAt s' a"
      by (blast intro: ancestors_visible)
    with u v show "visibleUpward s' \<and> visAt s' n \<and> (\<forall>a \<in> set (ancestors s' k n). visAt s' a)"
      by simp
  qed
  have f: "treeStep ops s op = Some s' \<and> \<not> callsSetNodeVisible op \<longrightarrow>
      (\<forall>m < length (nodes s). fieldAt nodeVisible s' m = fieldAt nodeVisible s m)"
    by (blast intro: moreNodes_fieldAt_eq treeStep_moreVisible)
  show ?thesis
    apply (rule conjI)
     apply (rule a)
    apply (rule conjI)
     apply (rule b)
    apply (rule conjI)
     apply (rule c)
    apply (rule conjI)
     apply (rule d)
    apply (rule conjI)
     apply (rule e)
    apply (rule f)
    done
qed


theorem visibility_upward_closed_witness:
  "\<exists>s1 s2 s3 s4.
     newRootNode exampleOps (emptyStore 1) ''home'' = Some (s1, 0) \<and>
     treeStep exampleOps (emptyStore 1) (Operation (NewRootNode ''home'')) = Some s1 \<and>
     newChildNode s1 (entry ''/home'' ''b'' DIR 0) 0 = Some s2 \<and>
     treeStep exampleOps s1 (NewChildNode (entry ''/home'' ''b'' DIR 0) 0) = Some s2 \<and>
     treeStep exampleOps s2 (NewChildNode (entry ''/home/b'' ''c'' FILE 3) 1) = Some s3 \<and>
     setNodeVisible s3 2 = Some s4 \<and>
     treeStep exampleOps s3 (SetNodeVisible 2) = Some s4 \<and>
     treeReachable exampleOps s3 \<and> visibleUpward s3 \<and>
     visAt s3 0 \<and> \<not> visAt s3 1 \<and> \<not> visAt s3 2 \<and>
     visibleUpward s4 \<and> ancestors s4 2 2 = [1, 0] \<and>
     visAt s4 2 \<and> visAt s4 1 \<and> visAt s4 0 \<and>
     visAt s1 0 \<and> length (nodes s1) = 1 \<and> fieldAt nodeVisible s2 1 = Some False \<and>
     fieldAt nodeVisible s2 0 = fieldAt nodeVisible s1 0"
proof -
  have "Option.bind (newRootNode exampleOps (emptyStore 1) ''home'')
          (\<lambda>(s1, r). Option.bind (newChildNode s1 (entry ''/home'' ''b'' DIR 0) 0)
             (\<lambda>s2. Option.bind (newChildNode s2 (entry ''/home/b'' ''c'' FILE 3) 1)
                (\<lambda>s3. Option.bind (setNodeVisible s3 2)
                   (\<lambda>s4. if r = 0 \<and> length (nodes s1) = 1 \<and> visAt s3 0 \<and> \<not> visAt s3 1 \<and>
                             \<not> visAt s3 2 \<and> ancestors s4 2 2 = [1, 0]
                          then Some s4 else None)))) \<noteq> None"
    by code_simp
  then obtain s1 s2 s3 s4 where a: "newRootNode exampleOps (emptyStore 1) ''home'' = Some (s1, 0)"
    and b: "newChildNode s1 (entry ''/home'' ''b'' DIR 0) 0 = Some s2"
    and c: "newChildNode s2 (entry ''/home/b'' ''c'' FILE 3) 1 = Some s3"
    and d: "setNodeVisible s3 2 = Some s4"
    and e: "length (nodes s1) = 1" "visAt s3 0" "\<not> visAt s3 1" "\<not> visAt s3 2"
           "ancestors s4 2 2 = [1, 0]"
    by (auto split: Option.bind_splits if_splits prod.splits)
  from a have a': "treeStep exampleOps (emptyStore 1) (Operation (NewRootNode ''home'')) = Some s1"
    by simp
  from b have b': "treeStep exampleOps s1 (NewChildNode (entry ''/home'' ''b'' DIR 0) 0) = Some s2"
    by simp
  from c have c': "treeStep exampleOps s2 (NewChildNode (entry ''/home/b'' ''c'' FILE 3) 1) = Some s3"
    by simp
  from d have d': "treeStep exampleOps s3 (SetNodeVisible 2) = Some s4" by simp
  have "treeReachable exampleOps (emptyStore 1)"
    by (rule tree_start) (simp add: emptyStore_def)
  with a' b' c' have r: "treeReachable exampleOps s3" by (blast intro: tree_step)
  from visibility_upward_closed [where ops = exampleOps and s = s3, THEN conjunct1] r
  have u3: "visibleUpward s3" by blast
  from visibility_upward_closed [where ops = exampleOps and s = s3 and op = "SetNodeVisible 2"
      and s' = s4, THEN conjunct2, THEN conjunct1] u3 d'
  have u4: "visibleUpward s4" by blast
  from visibility_upward_closed [where ops = exampleOps and s = "emptyStore 1"
      and rootFolderName = "''home''" and s' = s1 and r = 0,
      THEN conjunct2, THEN conjunct2, THEN conjunct1] a
  have v1: "visAt s1 0" by blast
  from visibility_upward_closed [where s = s1 and contents = "entry ''/home'' ''b'' DIR 0"
      and parent = 0 and s' = s2,
      THEN conjunct2, THEN conjunct2, THEN conjunct2, THEN conjunct1] b e(1)
  have i2: "fieldAt nodeVisible s2 1 = Some False" by simp
  from visibility_upward_closed [where s = s3 and n = 2 and s' = s4 and k = 2,
      THEN conjunct2, THEN conjunct2, THEN conjunct2, THEN conjunct2, THEN conjunct1] u3 d e(5)
  have v4: "visAt s4 2 \<and> visAt s4 1 \<and> visAt s4 0" by simp
  from visibility_upward_closed [where ops = exampleOps and s = s1
      and op = "NewChildNode (entry ''/home'' ''b'' DIR 0) 0" and s' = s2,
      THEN conjunct2, THEN conjunct2, THEN conjunct2, THEN conjunct2, THEN conjunct2] b' e(1)
  have k: "fieldAt nodeVisible s2 0 = fieldAt nodeVisible s1 0" by simp
  from a a' b b' c' d d' r u3 e u4 v1 i2 v4 k show ?thesis by blast
qed

section \<open>The control node of a listing\<close>

lemma getControlAddress_firstDot:
  "getControlAddress l = (case firstDot l of None \<Rightarrow> [] | Some e \<Rightarrow> containingPath e)"
  by (induction l) (simp_all add: firstDot_def)

lemma verifyControlNode_controlReached:
  assumes "verifyControlNode gpl s n l = Some v"
  shows "v = controlReached gpl s n l"
proof (cases "firstDot l")
  case None
  with assms show ?thesis
    by (simp add: verifyControlNode_def controlReached_def getControlAddress_firstDot)
next
  case (Some e)
  show ?thesis
  proof (cases "containingPath e = []")
    case True
    with assms Some show ?thesis
      by (simp add: verifyControlNode_def controlReached_def getControlAddress_firstDot)
  next
    case False
    with assms Some obtain r c where "findRootNode s n = Some r"
      and "getNodeWithName gpl s r (containingPath e) = Some c" and "v = (c = Some n)"
      by (auto simp: verifyControlNode_def getControlAddress_firstDot Let_def
               split: Option.bind_splits)
    with Some False show ?thesis by (auto simp: controlReached_def)
  qed
qed

lemma noState_listingOf: "noState listingOf"
  unfolding noState_def listingOf_def by (blast dest: stateFrame_fields)

text \<open>
  C3. A \<open>GOOD\<close> listing is applied exactly when its first entry named "."
  has a containing path that is not empty and that the path search from the root of
  the tree resolves to the receiving node. Otherwise the call is
  \<open>recomputeNodeState\<close> on the store with the task cleared, and no node's child list
  or folder-contents flag changes.
\<close>

theorem deliverLSdata_control_node:
  assumes "getNode s n = Some nd" and "deliverLSdata gpl s n GOOD l = Some s'"
  shows "(controlReached gpl (putNode s n (nd\<lparr>lsTask := None\<rparr>)) n l \<longrightarrow>
            updateFileNodeData (putNode s n (nd\<lparr>lsTask := None\<rparr>)) n l = Some s') \<and>
         (\<not> controlReached gpl (putNode s n (nd\<lparr>lsTask := None\<rparr>)) n l \<longrightarrow>
            recomputeNodeState (putNode s n (nd\<lparr>lsTask := None\<rparr>)) n = Some s' \<and>
            sameNodes listingOf s s')"
proof -
  let ?s0 = "putNode s n (nd\<lparr>lsTask := None\<rparr>)"
  from assms obtain v where v: "verifyControlNode gpl ?s0 n l = Some v"
    and r: "(if \<not> v then recomputeNodeState ?s0 n else updateFileNodeData ?s0 n l) = Some s'"
    by (auto simp: deliverLSdata_def Let_def split: Option.bind_splits)
  have eq: "v = controlReached gpl ?s0 n l" using v by (rule verifyControlNode_controlReached)
  show ?thesis
  proof (cases v)
    case True
    with r eq show ?thesis by simp
  next
    case False
    with r have rc: "recomputeNodeState ?s0 n = Some s'" by simp
    have "sameNodes listingOf s ?s0"
      using assms(1) by (simp add: sameNodes_putNode listingOf_def)
    moreover have "sameNodes listingOf ?s0 s'"
      using rc by (blast intro: stateOnly_sameNodes recomputeNodeState_stateOnly noState_listingOf)
    ultimately have "sameNodes listingOf s s'" by (rule sameNodes_trans)
    with False rc eq show ?thesis by simp
  qed
qed

theorem deliverLSdata_control_node_counterexample:
  "getNode exStore8 0 = Some exLoadingRoot \<and>
   claimedControl (splitPath []) (putNode exStore8 0 (exLoadingRoot\<lparr>lsTask := None\<rparr>)) 0 exTwoDots \<and>
   (\<exists>s'. deliverLSdata (splitPath []) exStore8 0 GOOD exTwoDots = Some s' \<and>
         length (nodes s') = 1 \<and> fieldAt folderContentsKnown s' 0 = Some False) \<and>
   (\<exists>s'. updateFileNodeData (putNode exStore8 0 (exLoadingRoot\<lparr>lsTask := None\<rparr>)) 0 exTwoDots
            = Some s' \<and>
         length (nodes s') = 2 \<and> fieldAt folderContentsKnown s' 0 = Some True)"
proof -
  have a: "getNode exStore8 0 = Some exLoadingRoot"
    by (simp add: exStore8_def emptyStore_def getNode_def)
  have b: "claimedControl (splitPath []) (putNode exStore8 0 (exLoadingRoot\<lparr>lsTask := None\<rparr>)) 0
             exTwoDots"
    unfolding claimedControl_def by code_simp
  have "Option.bind (deliverLSdata (splitPath []) exStore8 0 GOOD exTwoDots)
          (\<lambda>s'. if length (nodes s') = 1 \<and> fieldAt folderContentsKnown s' 0 = Some False
                then Some s' else None) \<noteq> None"
    by code_simp
  then have c: "\<exists>s'. deliverLSdata (splitPath []) exStore8 0 GOOD exTwoDots = Some s' \<and>
         length (nodes s') = 1 \<and> fieldAt folderContentsKnown s' 0 = Some False"
    by (auto split: Option.bind_splits if_splits)
  have "Option.bind
          (updateFileNodeData (putNode exStore8 0 (exLoadingRoot\<lparr>lsTask := None\<rparr>)) 0 exTwoDots)
          (\<lambda>s'. if length (nodes s') = 2 \<and> fieldAt folderContentsKnown s' 0 = Some True
                then Some s' else None) \<noteq> None"
    by code_simp
  then have d: "\<exists>s'. updateFileNodeData (putNode exStore8 0 (exLoadingRoot\<lparr>lsTask := None\<rparr>)) 0
           exTwoDots = Some s' \<and>
         length (nodes s') = 2 \<and> fieldAt folderContentsKnown s' 0 = Some True"
    by (auto split: Option.bind_splits if_splits)
  from a b c d show ?thesis by blast
qed

theorem deliverLSdata_control_node_witness:
  "getNode exStore8 0 = Some exLoadingRoot \<and>
   controlReached (splitPath []) (putNode exStore8 0 (exLoadingRoot\<lparr>lsTask := None\<rparr>)) 0 exListing \<and>
   (\<exists>s'. deliverLSdata (splitPath []) exStore8 0 GOOD exListing = Some s' \<and>
         updateFileNodeData (putNode exStore8 0 (exLoadingRoot\<lparr>lsTask := None\<rparr>)) 0 exListing
           = Some s') \<and>
   \<not> controlReached (splitPath []) (putNode exStore8 0 (exLoadingRoot\<lparr>lsTask := None\<rparr>)) 0 exTwoDots \<and>
   (\<exists>s'. deliverLSdata (splitPath []) exStore8 0 GOOD exTwoDots = Some s' \<and>
         recomputeNodeState (putNode exStore8 0 (exLoadingRoot\<lparr>lsTask := None\<rparr>)) 0 = Some s' \<and>
         sameNodes listingOf exStore8 s')"
proof -
  let ?s0 = "putNode exStore8 0 (exLoadingRoot\<lparr>lsTask := None\<rparr>)"
  have a: "getNode exStore8 0 = Some exLoadingRoot"
    by (simp add: exStore8_def emptyStore_def getNode_def)
  have b: "controlReached (splitPath []) ?s0 0 exListing" by code_simp
  have c: "\<not> controlReached (splitPath []) ?s0 0 exTwoDots" by code_simp
  have "deliverLSdata (splitPath []) exStore8 0 GOOD exListing \<noteq> None" by code_simp
  then obtain s1 where d: "deliverLSdata (splitPath []) exStore8 0 GOOD exListing = Some s1"
    by auto
  have "deliverLSdata (splitPath []) exStore8 0 GOOD exTwoDots \<noteq> None" by code_simp
  then obtain s2 where e: "deliverLSdata (splitPath []) exStore8 0 GOOD exTwoDots = Some s2"
    by auto
  from deliverLSdata_control_node [OF a d] b
  have f: "updateFileNodeData ?s0 0 exListing = Some s1" by blast
  from deliverLSdata_control_node [OF a e] c
  have g: "recomputeNodeState ?s0 0 = Some s2 \<and> sameNodes listingOf exStore8 s2" by blast
  from a b c d e f g show ?thesis by blast
qed

section \<open>Applying a listing\<close>

lemma matchFound_iff:
  "matchFound t l \<longleftrightarrow>
     (\<exists>e \<in> set l. fileName e \<noteq> ''.'' \<and> fullPath t = fullPath e \<and> fileType t = fileType e)"
  by (induction l) auto

lemma sameNodes_matches: "sameNodes fileData s s' \<Longrightarrow> matches s' l c = matches s l c"
  by (simp add: matches_def sameNodes_fieldAt)

lemma sameNodes_sameFile: "sameNodes fileData s s' \<Longrightarrow> sameFile s' e c = sameFile s e c"
  by (simp add: sameFile_def sameNodes_fieldAt)

lemma moreNodes_matches: "moreNodes fileData s s' \<Longrightarrow> matches s l c \<Longrightarrow> matches s' l c"
  by (auto simp: matches_def split: option.splits dest: moreNodes_fieldAt)

lemma moreNodes_sameFile: "moreNodes fileData s s' \<Longrightarrow> sameFile s e c \<Longrightarrow> sameFile s' e c"
  by (auto simp: sameFile_def split: option.splits dest: moreNodes_fieldAt)

lemma sameNodes_fileData_putNode:
  "getNode s n = Some nd \<Longrightarrow> sameNodes fileData s (putNode s n (nd\<lparr>childList := cs\<rparr>))"
  by (simp add: sameNodes_putNode)

lemma stateOnly_fileData: "stateOnly s s' \<Longrightarrow> sameNodes fileData s s'"
  by (erule stateOnly_sameNodes) (rule noState_fields)

lemma filter_snoc_last:
  "cs \<noteq> [] \<Longrightarrow> filter P cs = filter P (butlast cs) @ (if P (last cs) then [last cs] else [])"
  by (induction cs rule: rev_induct) simp_all

lemma purgeLoop_result:
  "purgeLoop s n l alt = Some (s', alt') \<Longrightarrow>
   childrenOf s' n = [] \<and> alt' = alt @ rev (filter (matches s l) (childrenOf s n)) \<and>
   sameNodes fileData s s' \<and> deletingKept s s' \<and>
   (\<forall>c \<in> set (childrenOf s n). \<not> matches s l c \<longrightarrow> stateAt s' c = Some DELETING)"
proof (induction s n l alt arbitrary: s' alt' rule: purgeLoop.induct)
  case (1 s n l alt)
  from "1.prems" obtain nd where nd: "getNode s n = Some nd"
    by (blast dest: purgeLoop_Some_node)
  note unf = purgeLoop_unfold [OF nd]
  have co: "childrenOf s n = childList nd" using nd by (simp add: childrenOf_def)
  show ?case
  proof (cases "childList nd = []")
    case True
    with "1.prems" co show ?thesis by (simp add: unf sameNodes_refl deletingKept_refl)
  next
    case False
    let ?s1 = "putNode s n (nd\<lparr>childList := butlast (childList nd)\<rparr>)"
    let ?c = "last (childList nd)"
    have f1: "sameNodes fileData s ?s1" using nd by (rule sameNodes_fileData_putNode)
    have k1: "deletingKept s ?s1" using nd by (simp add: deletingKept_putNode)
    have m1: "matches ?s1 l = matches s l"
      using f1 by (auto simp: fun_eq_iff dest: sameNodes_matches)
    have c1: "childrenOf ?s1 n = butlast (childList nd)" using nd by (simp add: childrenOf_putNode)
    from "1.prems" False obtain aNode where an: "getNode ?s1 ?c = Some aNode"
      by (auto simp: unf split: option.splits)
    have "matches ?s1 l ?c = matchFound (getFileData aNode) l"
      using an by (simp add: matches_def fieldAt_def getFileData_def)
    then have mc: "matches s l ?c = matchFound (getFileData aNode) l" by (simp add: m1)
    note split = filter_snoc_last [OF False, of "matches s l"]
    show ?thesis
    proof (cases "matchFound (getFileData aNode) l")
      case True
      with "1.prems" False an
      have r: "purgeLoop ?s1 n l (alt @ [?c]) = Some (s', alt')" by (simp add: unf)
      from "1.IH"(1) [OF nd False an True r] c1
      have e: "childrenOf s' n = []"
        and a: "alt' = (alt @ [?c]) @ rev (filter (matches ?s1 l) (butlast (childList nd)))"
        and f: "sameNodes fileData ?s1 s'" and k: "deletingKept ?s1 s'"
        and d: "\<forall>c \<in> set (butlast (childList nd)). \<not> matches ?s1 l c \<longrightarrow> stateAt s' c = Some DELETING"
        by simp_all
      have a': "alt' = alt @ rev (filter (matches s l) (childList nd))"
        using a True mc by (simp add: split m1)
      have d': "\<forall>c \<in> set (childList nd). \<not> matches s l c \<longrightarrow> stateAt s' c = Some DELETING"
      proof (intro ballI impI)
        fix c assume c: "c \<in> set (childList nd)" and nm: "\<not> matches s l c"
        with True mc have "c \<noteq> ?c" by auto
        with c False have "c \<in> set (butlast (childList nd))"
          by (metis append_butlast_last_id Un_iff empty_iff empty_set insert_iff list.simps(15)
                    set_append)
        with d nm show "stateAt s' c = Some DELETING" by (simp add: m1)
      qed
      from e a' f1 f k1 k d' co show ?thesis
        by (auto intro: sameNodes_trans deletingKept_trans)
    next
      case nomatch: False
      with "1.prems" False an obtain s2 where
        s2: "changeNodeState ?s1 ?c DELETING = Some s2"
        and r: "purgeLoop s2 n l alt = Some (s', alt')"
        by (auto simp: unf split: Option.bind_splits)
      have so: "stateOnly ?s1 s2" using s2 by (rule changeNodeState_stateOnly)
      have f2: "sameNodes fileData ?s1 s2" using so by (rule stateOnly_fileData)
      have k2: "deletingKept ?s1 s2" using s2 by (rule changeNodeState_deletingKept)
      have m2: "matches s2 l = matches s l"
        using f2 m1 by (auto simp: fun_eq_iff dest: sameNodes_matches)
      have c2: "childrenOf s2 n = butlast (childList nd)"
        using so c1 by (simp add: stateOnly_childrenOf)
      have last2: "stateAt s2 ?c = Some DELETING"
        using s2 by (simp add: changeNodeState_stateAt)
      from "1.IH"(2) [OF nd False an nomatch s2 r] c2
      have e: "childrenOf s' n = []"
        and a: "alt' = alt @ rev (filter (matches s2 l) (butlast (childList nd)))"
        and f: "sameNodes fileData s2 s'" and k: "deletingKept s2 s'"
        and d: "\<forall>c \<in> set (butlast (childList nd)). \<not> matches s2 l c \<longrightarrow> stateAt s' c = Some DELETING"
        by simp_all
      have a': "alt' = alt @ rev (filter (matches s l) (childList nd))"
        using a nomatch mc by (simp add: split m2)
      have d': "\<forall>c \<in> set (childList nd). \<not> matches s l c \<longrightarrow> stateAt s' c = Some DELETING"
      proof (intro ballI impI)
        fix c assume c: "c \<in> set (childList nd)" and nm: "\<not> matches s l c"
        show "stateAt s' c = Some DELETING"
        proof (cases "c = ?c")
          case True
          with last2 k show ?thesis by (simp add: deletingKept_def)
        next
          case False
          with c \<open>childList nd \<noteq> []\<close> have "c \<in> set (butlast (childList nd))"
            by (metis append_butlast_last_id Un_iff empty_iff empty_set insert_iff list.simps(15)
                      set_append)
          with d nm show ?thesis by (simp add: m2)
        qed
      qed
      from e a' f1 f2 f k1 k2 k d' co show ?thesis
        by (auto intro: sameNodes_trans deletingKept_trans)
    qed
  qed
qed

lemma purgeUnmatchedChildren_result:
  assumes "purgeUnmatchedChildren s n l = Some s'"
  shows "childrenOf s' n = filter (matches s l) (childrenOf s n) \<and>
         sameNodes fileData s s' \<and> deletingKept s s' \<and>
         (\<forall>c \<in> set (childrenOf s n). \<not> matches s l c \<longrightarrow> stateAt s' c = Some DELETING)"
proof -
  from assms obtain nd where nd: "getNode s n = Some nd"
    by (auto simp: purgeUnmatchedChildren_def split: Option.bind_splits)
  have co: "childrenOf s n = childList nd" using nd by (simp add: childrenOf_def)
  show ?thesis
  proof (cases "childList nd = []")
    case True
    with assms nd co show ?thesis
      by (simp add: purgeUnmatchedChildren_def sameNodes_refl deletingKept_refl)
  next
    case False
    with assms nd obtain s1 alt nd1 where
      p: "purgeLoop s n l [] = Some (s1, alt)" and nd1: "getNode s1 n = Some nd1"
      and s': "s' = putNode s1 n (nd1\<lparr>childList := childList nd1 @ rev alt\<rparr>)"
      by (auto simp: purgeUnmatchedChildren_def split: Option.bind_splits)
    from purgeLoop_result [OF p]
    have e: "childrenOf s1 n = []"
      and a: "alt = rev (filter (matches s l) (childrenOf s n))"
      and f: "sameNodes fileData s s1" and k: "deletingKept s s1"
      and d: "\<forall>c \<in> set (childrenOf s n). \<not> matches s l c \<longrightarrow> stateAt s1 c = Some DELETING"
      by simp_all
    from e nd1 have "childList nd1 = []" by (simp add: childrenOf_def)
    then have c: "childrenOf s' n = filter (matches s l) (childrenOf s n)"
      using nd1 a by (simp add: s' childrenOf_putNode)
    have f': "sameNodes fileData s1 s'" using nd1 by (simp add: s' sameNodes_putNode)
    have k': "deletingKept s1 s'" using nd1 by (simp add: s' deletingKept_putNode)
    have st: "stateAt s' m = stateAt s1 m" for m using nd1 by (simp add: s' stateAt_putNode_same)
    from c f f' k k' d show ?thesis
      by (auto simp: st intro: sameNodes_trans deletingKept_trans)
  qed
qed

lemma insertFileLoop_result:
  "insertFileLoop s cs e = Some b \<Longrightarrow> b = (\<exists>c \<in> set cs. sameFile s e c)"
proof (induction cs)
  case Nil
  then show ?case by simp
next
  case (Cons c cs)
  then obtain cn where cn: "getNode s c = Some cn"
    by (auto split: Option.bind_splits)
  have sf: "sameFile s e c \<longleftrightarrow>
      fullPath e = fullPath (getFileData cn) \<and> fileType e = fileType (getFileData cn)"
    using cn by (simp add: sameFile_def fieldAt_def getFileData_def)
  show ?case
  proof (cases "sameFile s e c")
    case True
    with Cons.prems cn sf show ?thesis by (simp add: Let_def)
  next
    case False
    with Cons.prems cn sf have "insertFileLoop s cs e = Some b" by auto
    with Cons.IH False show ?thesis by simp
  qed
qed

lemma newChildNode_result:
  assumes "newChildNode s contents parent = Some s'"
  shows "childrenOf s' parent = childrenOf s parent @ [length (nodes s)] \<and>
         fieldAt fileData s' (length (nodes s)) = Some contents \<and>
         moreNodes fileData s s' \<and> length (nodes s') = Suc (length (nodes s))"
proof -
  from assms obtain pn where pn: "getNode s parent = Some pn"
    by (auto simp: newChildNode_def split: Option.bind_splits)
  let ?s1 = "s\<lparr>nodes := nodes s @ [newNode (Some parent) contents]\<rparr>"
  let ?s2 = "putNode ?s1 parent (pn\<lparr>childList := childList pn @ [length (nodes s)]\<rparr>)"
  from assms pn have r: "recomputeNodeState ?s2 (length (nodes s)) = Some s'"
    by (simp add: newChildNode_def Let_def)
  have plen: "parent < length (nodes s)"
    using pn by (auto simp: getNode_def split: if_splits)
  have so: "stateOnly ?s2 s'" using r by (rule recomputeNodeState_stateOnly)
  have c2: "childrenOf ?s2 parent = childList pn @ [length (nodes s)]"
    using plen by (simp add: childrenOf_def getNode_def putNode_def)
  have c0: "childrenOf s parent = childList pn" using pn by (simp add: childrenOf_def)
  have "childrenOf s' parent = childrenOf ?s2 parent" using so by (rule stateOnly_childrenOf)
  with c2 c0 have a: "childrenOf s' parent = childrenOf s parent @ [length (nodes s)]"
    by simp
  have "fieldAt fileData ?s2 (length (nodes s)) = Some contents"
    using plen
    by (auto simp: fieldAt_def getNode_def putNode_def nth_list_update nth_append newNode_def)
  then have b: "fieldAt fileData s' (length (nodes s)) = Some contents"
    using sameNodes_fieldAt [OF stateOnly_fileData [OF so]] by simp
  have c: "moreNodes fileData s s'"
    by (rule newChildNode_moreNodes(1) [OF noState_fields(2) _ assms]) simp
  have d: "length (nodes s') = Suc (length (nodes s))"
    using stateOnly_length [OF so] by (simp add: putNode_def)
  from a b c d show ?thesis by simp
qed

lemma insertFile_result:
  assumes "insertFile s n e = Some s'"
  shows "(if fileName e = ''.'' \<or> (\<exists>c \<in> set (childrenOf s n). sameFile s e c) then s' = s
          else childrenOf s' n = childrenOf s n @ [length (nodes s)] \<and>
               fieldAt fileData s' (length (nodes s)) = Some e \<and>
               length (nodes s') = Suc (length (nodes s))) \<and>
         moreNodes fileData s s'"
proof (cases "fileName e = ''.''")
  case True
  with assms show ?thesis by (simp add: insertFile_def moreNodes_refl)
next
  case False
  with assms obtain nd b where nd: "getNode s n = Some nd"
    and lp: "insertFileLoop s (childList nd) e = Some b"
    and r: "(if b then Some s else newChildNode s e n) = Some s'"
    by (auto simp: insertFile_def split: Option.bind_splits)
  have co: "childrenOf s n = childList nd" using nd by (simp add: childrenOf_def)
  from insertFileLoop_result [OF lp] co
  have b: "b = (\<exists>c \<in> set (childrenOf s n). sameFile s e c)" by simp
  show ?thesis
  proof (cases b)
    case True
    with r b False show ?thesis by (auto simp: moreNodes_refl)
  next
    case nb: False
    with r have "newChildNode s e n = Some s'" by simp
    from newChildNode_result [OF this] b nb False show ?thesis by auto
  qed
qed

lemma sameFile_allocated: "sameFile s e c \<Longrightarrow> c < length (nodes s)"
  by (auto simp: sameFile_def fieldAt_def getNode_def split: option.splits if_splits)

lemma matches_allocated: "matches s l c \<Longrightarrow> c < length (nodes s)"
  by (auto simp: matches_def fieldAt_def getNode_def split: option.splits if_splits)

lemma insertFile_listed:
  assumes run: "insertFile s n e = Some s'" and e: "e \<in> set l"
    and inv: "listed s n l done"
  shows "listed s' n l (e # done)"
proof -
  note res = insertFile_result [OF run]
  then have more: "moreNodes fileData s s'" by simp
  show ?thesis
  proof (cases "fileName e = ''.'' \<or> (\<exists>c \<in> set (childrenOf s n). sameFile s e c)")
    case True
    with res have "s' = s" by simp
    with inv True show ?thesis by (auto simp: listed_def)
  next
    case False
    with res have ch: "childrenOf s' n = childrenOf s n @ [length (nodes s)]"
      and fd: "fieldAt fileData s' (length (nodes s)) = Some e" by simp_all
    from False have ne: "fileName e \<noteq> ''.''" by simp
    have new_m: "matches s' l (length (nodes s))"
      using fd e ne by (auto simp: matches_def matchFound_iff)
    have new_f: "sameFile s' e (length (nodes s))"
      using fd by (simp add: sameFile_def)
    have old_m: "\<forall>c \<in> set (childrenOf s n). matches s' l c"
      using inv more by (auto simp: listed_def intro: moreNodes_matches)
    have old_f: "\<forall>d \<in> set done. fileName d \<noteq> ''.'' \<longrightarrow>
        (\<exists>c \<in> set (childrenOf s' n). sameFile s' d c)"
    proof (intro ballI impI)
      fix d assume "d \<in> set done" and "fileName d \<noteq> ''.''"
      with inv obtain c where c: "c \<in> set (childrenOf s n)" and f: "sameFile s d c"
        by (auto simp: listed_def)
      from more f have "sameFile s' d c" by (rule moreNodes_sameFile)
      with c ch show "\<exists>c \<in> set (childrenOf s' n). sameFile s' d c" by auto
    qed
    from new_m new_f old_m old_f ch show ?thesis by (auto simp: listed_def)
  qed
qed

lemma insertFiles_listed:
  "insertFiles s n es = Some s' \<Longrightarrow> set es \<subseteq> set l \<Longrightarrow> listed s n l done \<Longrightarrow>
   listed s' n l (rev es @ done)"
proof (induction es arbitrary: s "done")
  case Nil
  then show ?case by simp
next
  case (Cons e es)
  then obtain s1 where a: "insertFile s n e = Some s1" and b: "insertFiles s1 n es = Some s'"
    by (auto split: Option.bind_splits)
  from Cons.prems have "e \<in> set l" "set es \<subseteq> set l" by simp_all
  with insertFile_listed [OF a _ Cons.prems(3)] Cons.IH [OF b]
  show ?case by simp
qed

lemma insertFiles_listed_noop:
  "insertFiles s n es = Some s' \<Longrightarrow> listed s n l es \<Longrightarrow> s' = s"
proof (induction es arbitrary: s)
  case Nil
  then show ?case by simp
next
  case (Cons e es)
  then obtain s1 where a: "insertFile s n e = Some s1" and b: "insertFiles s1 n es = Some s'"
    by (auto split: Option.bind_splits)
  from Cons.prems(2)
  have "fileName e = ''.'' \<or> (\<exists>c \<in> set (childrenOf s n). sameFile s e c)"
    by (auto simp: listed_def)
  with insertFile_result [OF a] have "s1 = s" by simp
  moreover from Cons.prems(2) have "listed s n l es" by (simp add: listed_def)
  ultimately show ?case using Cons.IH b by simp
qed

lemma listed_cong:
  "sameNodes fileData s s' \<Longrightarrow> childrenOf s' n = childrenOf s n \<Longrightarrow>
   listed s' n l es = listed s n l es"
  by (simp add: listed_def sameNodes_matches sameNodes_sameFile)

lemma sameNodes_childrenOf: "sameNodes childList s s' \<Longrightarrow> childrenOf s' n = childrenOf s n"
  using sameNodes_getNode [of childList s s' n]
  by (cases "getNode s n"; cases "getNode s' n") (auto simp: childrenOf_def)

text \<open>The last two steps of \<open>updateFileNodeData\<close> write no child list and no file data.\<close>

lemma showChildren_frame:
  assumes v: "setNodesVisible s cs = Some s3" and r: "recomputeNodeState s3 n = Some s'"
  shows "sameNodes fileData s s' \<and> childrenOf s' m = childrenOf s m \<and>
         length (nodes s') = length (nodes s)"
proof -
  have a: "sameNodes fileData s s3" "sameNodes childList s s3"
    using v by (rule setNodesVisible_sameNodes [rotated 2], simp_all add: noState_fields)+
  have so: "stateOnly s3 s'" using r by (rule recomputeNodeState_stateOnly)
  have b: "sameNodes fileData s3 s'" using so by (rule stateOnly_fileData)
  have c: "childrenOf s' m = childrenOf s3 m" using so by (rule stateOnly_childrenOf)
  from a b c sameNodes_childrenOf [OF a(2), of m] sameNodes_length [OF a(1)]
    stateOnly_length [OF so]
  show ?thesis by (auto intro: sameNodes_trans)
qed

lemma updateFileNodeData_listed:
  assumes run: "updateFileNodeData s n l = Some s1" and long: "\<not> length l \<le> 1"
  shows "listed s1 n l l"
proof -
  from run obtain nd where nd: "getNode s n = Some nd"
    by (auto simp: updateFileNodeData_def split: Option.bind_splits)
  let ?s0 = "putNode s n (nd\<lparr>folderContentsKnown := True\<rparr>)"
  from run nd long obtain sp si nd2 sv where p: "purgeUnmatchedChildren ?s0 n l = Some sp"
    and i: "insertFiles sp n l = Some si" and nd2: "getNode si n = Some nd2"
    and v: "setNodesVisible si (childList nd2) = Some sv"
    and r: "recomputeNodeState sv n = Some s1"
    by (auto simp: updateFileNodeData_def Let_def split: Option.bind_splits)
  from purgeUnmatchedChildren_result [OF p]
  have cp: "childrenOf sp n = filter (matches ?s0 l) (childrenOf ?s0 n)"
    and fp: "sameNodes fileData ?s0 sp" by simp_all
  have "\<forall>c \<in> set (childrenOf sp n). matches sp l c"
    using cp sameNodes_matches [OF fp] by simp
  then have "listed sp n l []" by (simp add: listed_def)
  from insertFiles_listed [OF i _ this] have "listed si n l (rev l)" by simp
  then have li: "listed si n l l" by (simp add: listed_def)
  from showChildren_frame [OF v r, of n]
  have f: "sameNodes fileData si s1" and c: "childrenOf s1 n = childrenOf si n" by simp_all
  from listed_cong [OF f c] li show ?thesis by simp
qed

lemma updateFileNodeData_again:
  assumes li: "listed s1 n l l" and long: "\<not> length l \<le> 1"
    and run: "updateFileNodeData s1 n l = Some s2"
  shows "childrenOf s2 n = childrenOf s1 n \<and> length (nodes s2) = length (nodes s1)"
proof -
  from run obtain nd where nd: "getNode s1 n = Some nd"
    by (auto simp: updateFileNodeData_def split: Option.bind_splits)
  let ?s0 = "putNode s1 n (nd\<lparr>folderContentsKnown := True\<rparr>)"
  from run nd long obtain sp si nd2 sv where p: "purgeUnmatchedChildren ?s0 n l = Some sp"
    and i: "insertFiles sp n l = Some si" and nd2: "getNode si n = Some nd2"
    and v: "setNodesVisible si (childList nd2) = Some sv"
    and r: "recomputeNodeState sv n = Some s2"
    by (auto simp: updateFileNodeData_def Let_def split: Option.bind_splits)
  have f0: "sameNodes fileData s1 ?s0" using nd by (simp add: sameNodes_putNode)
  have c0: "childrenOf ?s0 n = childrenOf s1 n"
    using nd by (simp add: childrenOf_putNode) (simp add: childrenOf_def)
  have l0: "listed ?s0 n l l" using li listed_cong [OF f0 c0] by simp
  from purgeUnmatchedChildren_result [OF p]
  have cp: "childrenOf sp n = filter (matches ?s0 l) (childrenOf ?s0 n)"
    and fp: "sameNodes fileData ?s0 sp" by simp_all
  from l0 have "filter (matches ?s0 l) (childrenOf ?s0 n) = childrenOf ?s0 n"
    by (simp add: listed_def)
  with cp have cp': "childrenOf sp n = childrenOf ?s0 n" by simp
  have lp: "listed sp n l l" using l0 listed_cong [OF fp cp'] by simp
  have lenp: "length (nodes sp) = length (nodes s1)"
    using sameNodes_length [OF fp] by (simp add: putNode_def)
  from insertFiles_listed_noop [OF i lp] have si: "si = sp" .
  from showChildren_frame [OF v r, of n] si cp' c0 lenp show ?thesis by simp
qed

lemma updateFileNodeData_short_again:
  assumes short: "length l \<le> 1" and run1: "updateFileNodeData s n l = Some s1"
    and run2: "updateFileNodeData s1 n l = Some s2"
  shows "childrenOf s2 n = childrenOf s1 n \<and> length (nodes s2) = length (nodes s1)"
proof -
  from run1 obtain nd where nd: "getNode s n = Some nd"
    by (auto simp: updateFileNodeData_def split: Option.bind_splits)
  from run2 obtain nd1 where nd1: "getNode s1 n = Some nd1"
    by (auto simp: updateFileNodeData_def split: Option.bind_splits)
  from updateFileNodeData_empty_listing [OF nd short run1]
  have a: "childrenOf s1 n = []" by simp
  from updateFileNodeData_empty_listing [OF nd1 short run2]
  have b: "childrenOf s2 n = []" by simp
  let ?s0 = "putNode s1 n (nd1\<lparr>folderContentsKnown := True\<rparr>)"
  from run2 nd1 short obtain sc where c: "clearAllChildren ?s0 n = Some sc"
    and r: "recomputeNodeState sc n = Some s2"
    by (auto simp: updateFileNodeData_def Let_def split: Option.bind_splits)
  have "length (nodes sc) = length (nodes ?s0)"
    using sameCount [OF clearAllChildren_sameNodes [OF noState_unit _ c]] by simp
  moreover have "length (nodes s2) = length (nodes sc)" using r by (rule recomputeNodeState_count)
  ultimately have "length (nodes s2) = length (nodes s1)" by (simp add: putNode_count)
  with a b show ?thesis by simp
qed

text \<open>
  C9. A second \<open>updateFileNodeData\<close> with the same list leaves the child list of the
  node as the first call left it and creates no node; \<open>insertFile\<close> returns the store
  unchanged for an entry whose full path and file type a child has; and the children
  that \<open>purgeUnmatchedChildren\<close> keeps are the matching ones in their old order.
\<close>

theorem listing_idempotent:
  "(updateFileNodeData s n l = Some s1 \<and> updateFileNodeData s1 n l = Some s2 \<longrightarrow>
      childrenOf s2 n = childrenOf s1 n \<and> length (nodes s2) = length (nodes s1)) \<and>
   (insertFile s n e = Some s' \<and> (\<exists>c \<in> set (childrenOf s n). sameFile s e c) \<longrightarrow> s' = s) \<and>
   (purgeUnmatchedChildren s n l = Some s' \<longrightarrow>
      childrenOf s' n = filter (matches s l) (childrenOf s n))"
proof -
  have a: "updateFileNodeData s n l = Some s1 \<and> updateFileNodeData s1 n l = Some s2 \<longrightarrow>
      childrenOf s2 n = childrenOf s1 n \<and> length (nodes s2) = length (nodes s1)"
  proof
    assume h: "updateFileNodeData s n l = Some s1 \<and> updateFileNodeData s1 n l = Some s2"
    show "childrenOf s2 n = childrenOf s1 n \<and> length (nodes s2) = length (nodes s1)"
    proof (cases "length l \<le> 1")
      case True
      from h have r1: "updateFileNodeData s n l = Some s1"
        and r2: "updateFileNodeData s1 n l = Some s2" by simp_all
      show ?thesis by (rule updateFileNodeData_short_again [OF True r1 r2])
    next
      case False
      from h have r1: "updateFileNodeData s n l = Some s1"
        and r2: "updateFileNodeData s1 n l = Some s2" by simp_all
      have "listed s1 n l l" by (rule updateFileNodeData_listed [OF r1 False])
      then show ?thesis by (rule updateFileNodeData_again [OF _ False r2])
    qed
  qed
  have b: "insertFile s n e = Some s' \<and> (\<exists>c \<in> set (childrenOf s n). sameFile s e c)
      \<longrightarrow> s' = s"
    using insertFile_result [of s n e s'] by auto
  have c: "purgeUnmatchedChildren s n l = Some s' \<longrightarrow>
      childrenOf s' n = filter (matches s l) (childrenOf s n)"
    using purgeUnmatchedChildren_result [of s n l s'] by blast
  show ?thesis
    apply (rule conjI)
     apply (rule a)
    apply (rule conjI)
     apply (rule b)
    apply (rule c)
    done
qed

theorem listing_idempotent_witness:
  "\<exists>s1 s2 s4.
     updateFileNodeData exStore8 0 exListing = Some s1 \<and>
     updateFileNodeData s1 0 exListing = Some s2 \<and>
     childrenOf s1 0 = [1, 2] \<and> childrenOf s2 0 = [1, 2] \<and>
     length (nodes s2) = length (nodes s1) \<and>
     sameFile s1 (entry ''/home'' ''a'' FILE 3) 1 \<and>
     insertFile s1 0 (entry ''/home'' ''a'' FILE 3) = Some s1 \<and>
     purgeUnmatchedChildren s1 0 exListingB = Some s4 \<and> childrenOf s4 0 = [2]"
proof -
  let ?a = "entry ''/home'' ''a'' FILE 3"
  have "Option.bind (updateFileNodeData exStore8 0 exListing)
          (\<lambda>s1. Option.bind (updateFileNodeData s1 0 exListing)
             (\<lambda>s2. Option.bind (insertFile s1 0 ?a)
                (\<lambda>s3. Option.bind (purgeUnmatchedChildren s1 0 exListingB)
                   (\<lambda>s4. if childrenOf s1 0 = [1, 2] \<and> sameFile s1 ?a 1 \<and>
                             matches s1 exListingB 2 \<and> \<not> matches s1 exListingB 1
                          then Some s4 else None)))) \<noteq> None"
    by code_simp
  then obtain s1 s2 s3 s4 where r1: "updateFileNodeData exStore8 0 exListing = Some s1"
    and r2: "updateFileNodeData s1 0 exListing = Some s2"
    and r3: "insertFile s1 0 ?a = Some s3"
    and r4: "purgeUnmatchedChildren s1 0 exListingB = Some s4"
    and c1: "childrenOf s1 0 = [1, 2]" and f: "sameFile s1 ?a 1"
    and m: "matches s1 exListingB 2" "\<not> matches s1 exListingB 1"
    by (auto split: Option.bind_splits if_splits)
  from listing_idempotent [where s = exStore8 and n = 0 and l = exListing and ?s1.0 = s1
      and ?s2.0 = s2, THEN conjunct1] r1 r2
  have a: "childrenOf s2 0 = childrenOf s1 0 \<and> length (nodes s2) = length (nodes s1)"
    by blast
  from f c1 have "\<exists>c \<in> set (childrenOf s1 0). sameFile s1 ?a c" by simp
  with listing_idempotent [where s = s1 and n = 0 and e = ?a and s' = s3,
      THEN conjunct2, THEN conjunct1] r3
  have b: "s3 = s1" by blast
  from listing_idempotent [where s = s1 and n = 0 and l = exListingB and s' = s4,
      THEN conjunct2, THEN conjunct2] r4
  have "childrenOf s4 0 = filter (matches s1 exListingB) (childrenOf s1 0)" by blast
  with c1 m have c: "childrenOf s4 0 = [2]" by simp
  from r1 r2 r3 r4 c1 f a b c show ?thesis by auto
qed

section \<open>Synchronizing the children with a listing\<close>

lemma updateFileNodeData_fileData:
  "updateFileNodeData s n l = Some s' \<Longrightarrow> moreNodes fileData s s'"
  by (rule updateFileNodeData_moreNodes [OF noListing_tasks(5)])

lemma insertFiles_appends:
  "insertFiles s n es = Some s' \<Longrightarrow>
   \<exists>new. childrenOf s' n = childrenOf s n @ new \<and> (\<forall>c \<in> set new. length (nodes s) \<le> c) \<and>
         length (nodes s) \<le> length (nodes s')"
proof (induction es arbitrary: s)
  case Nil
  then show ?case by simp
next
  case (Cons e es)
  then obtain s1 where a: "insertFile s n e = Some s1" and b: "insertFiles s1 n es = Some s'"
    by (auto split: Option.bind_splits)
  from insertFile_result [OF a]
  have "\<exists>new. childrenOf s1 n = childrenOf s n @ new \<and> (\<forall>c \<in> set new. length (nodes s) \<le> c) \<and>
         length (nodes s) \<le> length (nodes s1)"
    by (auto split: if_splits)
  then obtain new1 where n1: "childrenOf s1 n = childrenOf s n @ new1"
    and g1: "\<forall>c \<in> set new1. length (nodes s) \<le> c" and l1: "length (nodes s) \<le> length (nodes s1)"
    by blast
  from Cons.IH [OF b] obtain new2 where n2: "childrenOf s' n = childrenOf s1 n @ new2"
    and g2: "\<forall>c \<in> set new2. length (nodes s1) \<le> c" and l2: "length (nodes s1) \<le> length (nodes s')"
    by blast
  from n1 n2 have "childrenOf s' n = childrenOf s n @ (new1 @ new2)" by simp
  moreover from g1 g2 l1 have "\<forall>c \<in> set (new1 @ new2). length (nodes s) \<le> c" by auto
  moreover from l1 l2 have "length (nodes s) \<le> length (nodes s')" by simp
  ultimately show ?case by blast
qed

lemma setNodeVisible_deletingKept:
  "setNodeVisible s n = Some s' \<Longrightarrow> deletingKept s s'"
proof (induction s n arbitrary: s' rule: setNodeVisible.induct)
  case (1 s n)
  from "1.prems" obtain nd where nd: "getNode s n = Some nd"
    by (blast dest: setNodeVisible_Some_node)
  note unf = setNodeVisible_unfold [OF nd]
  show ?case
  proof (cases "nodeVisible nd")
    case True
    with "1.prems" show ?thesis by (simp add: unf deletingKept_refl)
  next
    case False
    let ?s1 = "putNode s n (nd\<lparr>nodeVisible := True\<rparr>)"
    have a: "deletingKept s ?s1" using nd by (simp add: deletingKept_putNode)
    show ?thesis
    proof (cases "myParent nd")
      case None
      with "1.prems" False have "recomputeNodeState ?s1 n = Some s'" by (simp add: unf)
      then have "deletingKept ?s1 s'" by (rule recomputeNodeState_deletingKept)
      with a show ?thesis by (rule deletingKept_trans)
    next
      case (Some p)
      with "1.prems" False obtain s2 where
        s2: "setNodeVisible ?s1 p = Some s2" and r: "recomputeNodeState s2 n = Some s'"
        by (auto simp: unf split: Option.bind_splits)
      have b: "deletingKept ?s1 s2" using "1.IH" nd False Some s2 by blast
      have c: "deletingKept s2 s'" using r by (rule recomputeNodeState_deletingKept)
      from a b c show ?thesis by (blast intro: deletingKept_trans)
    qed
  qed
qed

lemma setNodesVisible_deletingKept:
  "setNodesVisible s cs = Some s' \<Longrightarrow> deletingKept s s'"
proof (induction cs arbitrary: s)
  case Nil
  then show ?case by (simp add: deletingKept_refl)
next
  case (Cons c cs)
  then obtain s1 where a: "setNodeVisible s c = Some s1" and b: "setNodesVisible s1 cs = Some s'"
    by (auto split: Option.bind_splits)
  from a have "deletingKept s s1" by (rule setNodeVisible_deletingKept)
  moreover from b have "deletingKept s1 s'" by (rule Cons.IH)
  ultimately show ?case by (rule deletingKept_trans)
qed

lemma newChildNode_deletingKept:
  assumes "newChildNode s contents parent = Some s'"
  shows "deletingKept s s'"
proof -
  from assms obtain pn where pn: "getNode s parent = Some pn"
    by (auto simp: newChildNode_def split: Option.bind_splits)
  let ?s1 = "s\<lparr>nodes := nodes s @ [newNode (Some parent) contents]\<rparr>"
  let ?s2 = "putNode ?s1 parent (pn\<lparr>childList := childList pn @ [length (nodes s)]\<rparr>)"
  from assms pn have r: "recomputeNodeState ?s2 (length (nodes s)) = Some s'"
    by (simp add: newChildNode_def Let_def)
  have a: "deletingKept s ?s1"
    by (auto simp: deletingKept_def stateAt_def getNode_def nth_append split: if_splits)
  have g: "getNode ?s1 parent = Some pn"
    using pn by (auto simp: getNode_def nth_append split: if_splits)
  have b: "deletingKept ?s1 ?s2" using g by (simp add: deletingKept_putNode)
  have c: "deletingKept ?s2 s'" using r by (rule recomputeNodeState_deletingKept)
  from a b c show ?thesis by (blast intro: deletingKept_trans)
qed

lemma insertFile_deletingKept: "insertFile s n e = Some s' \<Longrightarrow> deletingKept s s'"
  by (auto simp: insertFile_def deletingKept_refl split: if_splits Option.bind_splits
           intro: newChildNode_deletingKept)

lemma insertFiles_deletingKept: "insertFiles s n es = Some s' \<Longrightarrow> deletingKept s s'"
proof (induction es arbitrary: s)
  case Nil
  then show ?case by (simp add: deletingKept_refl)
next
  case (Cons e es)
  then obtain s1 where a: "insertFile s n e = Some s1" and b: "insertFiles s1 n es = Some s'"
    by (auto split: Option.bind_splits)
  from a have "deletingKept s s1" by (rule insertFile_deletingKept)
  moreover from b have "deletingKept s1 s'" by (rule Cons.IH)
  ultimately show ?case by (rule deletingKept_trans)
qed

text \<open>
  What \<open>updateFileNodeData\<close> does with a listing of more than one entry: the children
  that match no entry are in \<open>DELETING\<close> and off the child list; every entry other
  than "." has a child; the matching children are kept, with the file data they had;
  all children are visible; and the folder contents are known.
\<close>

lemma updateFileNodeData_synchronizes:
  assumes nd: "getNode s n = Some nd" and long: "\<not> length l \<le> 1"
    and run: "updateFileNodeData s n l = Some s'"
  shows "(\<forall>c \<in> set (childList nd). \<not> matches s l c \<longrightarrow>
            stateAt s' c = Some DELETING \<and> c \<notin> set (childrenOf s' n)) \<and>
         (\<forall>e \<in> set l. fileName e \<noteq> ''.'' \<longrightarrow> (\<exists>c \<in> set (childrenOf s' n). sameFile s' e c)) \<and>
         (\<forall>c \<in> set (childList nd). matches s l c \<longrightarrow>
            c \<in> set (childrenOf s' n) \<and> fieldAt fileData s' c = fieldAt fileData s c) \<and>
         (\<forall>c \<in> set (childrenOf s' n). visAt s' c) \<and>
         fieldAt folderContentsKnown s' n = Some True"
proof -
  let ?s0 = "putNode s n (nd\<lparr>folderContentsKnown := True\<rparr>)"
  from run nd long obtain sp si nd2 sv where p: "purgeUnmatchedChildren ?s0 n l = Some sp"
    and i: "insertFiles sp n l = Some si" and nd2: "getNode si n = Some nd2"
    and v: "setNodesVisible si (childList nd2) = Some sv"
    and r: "recomputeNodeState sv n = Some s'"
    by (auto simp: updateFileNodeData_def Let_def split: Option.bind_splits)
  have f0: "sameNodes fileData s ?s0" using nd by (simp add: sameNodes_putNode)
  have m0: "matches ?s0 l = matches s l"
    using f0 by (auto simp: fun_eq_iff dest: sameNodes_matches)
  have c0: "childrenOf ?s0 n = childList nd" using nd by (simp add: childrenOf_putNode)
  from purgeUnmatchedChildren_result [OF p] c0 m0
  have cp: "childrenOf sp n = filter (matches s l) (childList nd)"
    and fp: "sameNodes fileData ?s0 sp" and kp: "deletingKept ?s0 sp"
    and dp: "\<forall>c \<in> set (childList nd). \<not> matches s l c \<longrightarrow> stateAt sp c = Some DELETING"
    by simp_all
  from insertFiles_appends [OF i] obtain new where
    ci: "childrenOf si n = childrenOf sp n @ new"
    and gi: "\<forall>c \<in> set new. length (nodes sp) \<le> c" by blast
  have ki: "deletingKept sp si" using i by (rule insertFiles_deletingKept)
  have kv: "deletingKept si sv" using v by (rule setNodesVisible_deletingKept)
  have kr: "deletingKept sv s'" using r by (rule recomputeNodeState_deletingKept)
  have kall: "deletingKept sp s'" using ki kv kr by (blast intro: deletingKept_trans)
  from showChildren_frame [OF v r, of n]
  have cs': "childrenOf s' n = childrenOf si n" by simp
  have ch: "childrenOf s' n = filter (matches s l) (childList nd) @ new"
    using cs' ci cp by simp
  have one: "\<forall>c \<in> set (childList nd). \<not> matches s l c \<longrightarrow>
            stateAt s' c = Some DELETING \<and> c \<notin> set (childrenOf s' n)"
  proof (intro ballI impI)
    fix c assume c: "c \<in> set (childList nd)" and nm: "\<not> matches s l c"
    with dp have d: "stateAt sp c = Some DELETING" by blast
    with kall have d': "stateAt s' c = Some DELETING" by (simp add: deletingKept_def)
    from d have "c < length (nodes sp)"
      by (auto simp: stateAt_def getNode_def split: if_splits)
    with gi have "c \<notin> set new" by auto
    with nm ch have "c \<notin> set (childrenOf s' n)" by simp
    with d' show "stateAt s' c = Some DELETING \<and> c \<notin> set (childrenOf s' n)" by blast
  qed
  have "listed s' n l l" using run long by (rule updateFileNodeData_listed)
  then have two: "\<forall>e \<in> set l. fileName e \<noteq> ''.'' \<longrightarrow>
      (\<exists>c \<in> set (childrenOf s' n). sameFile s' e c)"
    by (simp add: listed_def)
  have more: "moreNodes fileData s s'" using run by (rule updateFileNodeData_fileData)
  have three: "\<forall>c \<in> set (childList nd). matches s l c \<longrightarrow>
            c \<in> set (childrenOf s' n) \<and> fieldAt fileData s' c = fieldAt fileData s c"
  proof (intro ballI impI)
    fix c assume c: "c \<in> set (childList nd)" and m: "matches s l c"
    from m have "c < length (nodes s)" by (rule matches_allocated)
    with more have "fieldAt fileData s' c = fieldAt fileData s c" by (rule moreNodes_fieldAt_eq)
    moreover from c m ch have "c \<in> set (childrenOf s' n)" by simp
    ultimately show "c \<in> set (childrenOf s' n) \<and> fieldAt fileData s' c = fieldAt fileData s c"
      by blast
  qed
  have "childList nd2 = childrenOf si n" using nd2 by (simp add: childrenOf_def)
  with setNodesVisible_visGrows [OF v] have "\<forall>c \<in> set (childrenOf si n). visAt sv c" by simp
  moreover have "visGrows sv s'" using r by (rule recomputeNodeState_visGrows)
  ultimately have four: "\<forall>c \<in> set (childrenOf s' n). visAt s' c"
    using cs' by (simp add: visGrows_def)
  have k0: "fieldAt folderContentsKnown ?s0 n = Some True" using nd by (simp add: fieldAt_putNode)
  have "sameNodes folderContentsKnown ?s0 sp"
    using p by (rule purgeUnmatchedChildren_sameNodes [rotated 2]) (simp_all add: noState_fields)
  moreover have "moreNodes folderContentsKnown sp si"
    using i by (rule insertFiles_moreNodes [rotated 2]) (simp_all add: noState_fields)
  moreover have "sameNodes folderContentsKnown si sv"
    using v by (rule setNodesVisible_sameNodes [rotated 2]) (simp_all add: noState_fields)
  moreover have "sameNodes folderContentsKnown sv s'"
    using r by (blast intro: stateOnly_sameNodes recomputeNodeState_stateOnly noState_fields)
  ultimately have "moreNodes folderContentsKnown ?s0 s'"
    by (blast intro: moreNodes_trans sameNodes_more)
  with k0 have five: "fieldAt folderContentsKnown s' n = Some True"
    by (rule moreNodes_fieldAt [rotated])
  from one two three four five show ?thesis by blast
qed

text \<open>
  C2. The root "/home" has received \<open>exListing\<close>, and then
  receives \<open>exResized\<close>, whose entry for "a" has the full path and the type of child 1
  and the size 5. The listing passes the check of the control node and child 1 is
  kept, but its size is still 3: \<open>insertFile\<close> sets the size on the copy of the file
  data that \<open>getFileData()\<close> returned.
\<close>

theorem deliverLSdata_stale_size:
  "\<exists>s1 s2. updateFileNodeData exStore8 0 exListing = Some s1 \<and>
     verifyControlNode (splitPath []) s1 0 exResized = Some True \<and>
     deliverLSdata (splitPath []) s1 0 GOOD exResized = Some s2 \<and>
     sameFile s1 (entry ''/home'' ''a'' FILE 5) 1 \<and>
     map_option fileSize (fieldAt fileData s1 1) = Some 3 \<and>
     childrenOf s2 0 = [1, 2] \<and>
     map_option fileSize (fieldAt fileData s2 1) = Some 3"
proof -
  have "Option.bind (updateFileNodeData exStore8 0 exListing)
          (\<lambda>s1. Option.bind (deliverLSdata (splitPath []) s1 0 GOOD exResized)
             (\<lambda>s2. if verifyControlNode (splitPath []) s1 0 exResized = Some True \<and>
                       sameFile s1 (entry ''/home'' ''a'' FILE 5) 1 \<and>
                       map_option fileSize (fieldAt fileData s1 1) = Some 3 \<and>
                       childrenOf s2 0 = [1, 2] \<and>
                       map_option fileSize (fieldAt fileData s2 1) = Some 3
                    then Some s2 else None)) \<noteq> None"
    by code_simp
  then show ?thesis by (auto split: Option.bind_splits if_splits)
qed

end
